theory Spec2Isabelle
  imports Complex_Main
begin

section \<open>The bulk JSON import of the project tracker (utils/parser, \<open>parseJsonImport\<close>)\<close>

subsection \<open>JavaScript values\<close>

text \<open>
  A value as \<open>JSON.parse\<close> returns it, plus \<open>undefined\<close>, which is what reading an
  absent property gives, and the infinities, which \<open>parseInt\<close> gives. A Number is an IEEE
  double. \<open>JNum q\<close> is the finite Number whose value is the rational \<open>q\<close>, the negative zero
  apart (every finite double is a rational; the function never computes with Numbers, it
  tests them for zero, compares them as keys and passes them on). \<open>JNegZero\<close> is the
  negative zero and \<open>JInfinity neg\<close> the infinity of that sign. A string is the list of its
  code units, of which the model has the first 256 (\<open>char\<close>): a string with a code unit
  above U+00FF has no value here. An object is the list of its own properties; a property
  name is looked up from the front of the list.
\<close>

datatype jsval =
    JUndefined
  | JNull
  | JBool bool
  | JNum rat
  | JNegZero
  | JInfinity bool
  | JStr string
  | JArr "jsval list"
  | JObj "(string \<times> jsval) list"

text \<open>ToBoolean: what \<open>if (v)\<close>, \<open>v || d\<close>, \<open>v && w\<close> and \<open>!!v\<close> test.\<close>

fun truthy :: "jsval \<Rightarrow> bool" where
  "truthy JUndefined = False"
| "truthy JNull = False"
| "truthy (JBool b) = b"
| "truthy (JNum r) = (r \<noteq> 0)"
| "truthy JNegZero = False"
| "truthy (JInfinity neg) = True"
| "truthy (JStr s) = (s \<noteq> [])"
| "truthy (JArr xs) = True"
| "truthy (JObj kvs) = True"

fun nullish :: "jsval \<Rightarrow> bool" where
  "nullish JUndefined = True"
| "nullish JNull = True"
| "nullish v = False"

fun is_object :: "jsval \<Rightarrow> bool" where
  "is_object (JArr xs) = True"
| "is_object (JObj kvs) = True"
| "is_object v = False"

text \<open>
  \<open>v.k\<close> for a \<open>v\<close> that is neither \<open>null\<close> nor \<open>undefined\<close> (on those the read throws a
  TypeError: the callers test \<open>nullish\<close> first). The function reads only the names
  \<open>boards\<close>, \<open>tickets\<close>, \<open>sprints\<close>, \<open>id\<close>, \<open>name\<close>, \<open>key\<close>, \<open>type\<close>, \<open>columns\<close>, \<open>status\<close>,
  \<open>goal\<close>, \<open>start_date\<close>, \<open>end_date\<close>, \<open>_temp_board_id\<close>, \<open>board_id\<close>, \<open>sprint_id\<close>,
  \<open>story_points\<close>, \<open>title\<close>, \<open>description\<close>, \<open>priority\<close>, \<open>labels\<close>, \<open>is_flagged\<close> and
  \<open>parent_id\<close>; none of them is a property of an array, a string, a number or a boolean,
  nor inherited from \<open>Object.prototype\<close>, so everything but an object answers \<open>undefined\<close>.
\<close>

fun getProp :: "jsval \<Rightarrow> string \<Rightarrow> jsval" where
  "getProp (JObj kvs) k = (case map_of kvs k of Some v \<Rightarrow> v | None \<Rightarrow> JUndefined)"
| "getProp v k = JUndefined"

text \<open>\<open>a || d\<close>\<close>

definition orElse :: "jsval \<Rightarrow> jsval \<Rightarrow> jsval" where
  "orElse a d = (if truthy a then a else d)"

text \<open>Truthiness of a \<open>string | undefined\<close>, the type of \<open>currentBoardId\<close>.\<close>

fun truthy_str :: "string option \<Rightarrow> bool" where
  "truthy_str None = False"
| "truthy_str (Some s) = (s \<noteq> [])"

subsection \<open>Keys of a \<open>Map\<close>\<close>

text \<open>
  A \<open>Map\<close> compares keys with SameValueZero: primitives by value, objects and arrays by
  identity. \<open>JSON.parse\<close> allocates every object of the document once, so an object is
  the same key as another only when both were read from the same place. The places the
  function stores keys from are the \<open>id\<close> properties of the boards, sprints and tickets;
  each such entity takes exactly one draw of the identifier generator, and the number of
  that draw names its \<open>id\<close> object: \<open>KObj n\<close>. An object read from any other property
  (\<open>board_id\<close>, \<open>sprint_id\<close>, \<open>parent_id\<close>, a \<open>_temp_board_id\<close> of the document) is a
  different object from every stored key: \<open>KStray\<close>, which is never stored.
\<close>

datatype key = KPrim jsval | KObj nat | KStray

definition id_key :: "nat \<Rightarrow> jsval \<Rightarrow> key" where
  "id_key n v = (if is_object v then KObj n else KPrim v)"

definition ref_key :: "jsval \<Rightarrow> key" where
  "ref_key v = (if is_object v then KStray else KPrim v)"

fun truthy_key :: "key \<Rightarrow> bool" where
  "truthy_key (KPrim v) = truthy v"
| "truthy_key (KObj n) = True"
| "truthy_key KStray = True"

subsection \<open>\<open>parseInt(s, 10)\<close>\<close>

text \<open>
  The function of the language, by the steps of its specification: leading white space is
  skipped, then an optional sign is read, then the longest run of decimal digits; what
  follows is ignored. No digit at all gives \<open>NaN\<close>, here \<open>None\<close>. Otherwise the digits give
  a mathematical integer, and the result is the Number of that sign and integer.

  White space is what the language calls \<open>StrWhiteSpaceChar\<close>: of the code units the model
  has, these are TAB, LF, VT, FF, CR, SP and the no-break space U+00A0.
\<close>

definition is_space :: "char \<Rightarrow> bool" where
  "is_space c =
     (c \<in> set [CHR 0x09, CHR 0x0A, CHR 0x0B, CHR 0x0C, CHR 0x0D, CHR 0x20, CHR 0xA0])"

definition is_digit :: "char \<Rightarrow> bool" where
  "is_digit c = (c \<in> set ''0123456789'')"

definition digit_val :: "char \<Rightarrow> nat" where
  "digit_val c = of_char c - 48"

text \<open>The mathematical integer of a run of digits, read from the left.\<close>

definition digits_val :: "string \<Rightarrow> nat" where
  "digits_val ds = foldl (\<lambda>a c. 10 * a + digit_val c) 0 ds"

text \<open>
  The double nearest to a natural number, as a natural number. With \<open>e = ulp_exp m\<close>, the
  doubles around \<open>m\<close> are the multiples of \<open>2^e\<close>: below \<open>2^53\<close> these are all the integers
  and \<open>m\<close> is its own double; from there on \<open>e\<close> is the number of bits of \<open>m\<close> beyond 53.
  \<open>m\<close> goes to the nearer of the two multiples around it, and from the middle to the one
  whose quotient by \<open>2^e\<close> is even (\<open>roundTiesToEven\<close>).
\<close>

function ulp_exp :: "nat \<Rightarrow> nat" where
  "ulp_exp m = (if m < 2 ^ 53 then 0 else Suc (ulp_exp (m div 2)))"
  by pat_completeness auto
termination
  by (relation "measure id") auto

declare ulp_exp.simps [simp del]

definition to_double :: "nat \<Rightarrow> nat" where
  "to_double m =
    (let e = ulp_exp m; q = m div 2 ^ e; r = m mod 2 ^ e
     in if 2 * r < 2 ^ e \<or> (2 * r = 2 ^ e \<and> even q) then q * 2 ^ e else (q + 1) * 2 ^ e)"

text \<open>
  The Number of a sign and a mathematical integer: the negative zero for \<open>-0\<close>, an infinity
  when the rounding reaches \<open>2^1024\<close>, the rounded integer otherwise. (For a run with more
  than 20 significant digits the language lets a platform read the later digits as
  zeros; the model reads every digit, as the engines of the browsers do.)
\<close>

definition to_Number :: "bool \<Rightarrow> nat \<Rightarrow> jsval" where
  "to_Number neg m =
    (if m = 0 then (if neg then JNegZero else JNum 0)
     else if 2 ^ 1024 \<le> to_double m then JInfinity neg
     else JNum (if neg then - of_nat (to_double m) else of_nat (to_double m)))"

definition parseInt :: "string \<Rightarrow> jsval option" where
  "parseInt s =
    (let s1 = dropWhile is_space s;
         neg = (case s1 of c # r \<Rightarrow> c = CHR ''-'' | [] \<Rightarrow> False);
         s2 = (case s1 of c # r \<Rightarrow> if c = CHR ''-'' \<or> c = CHR ''+'' then r else s1 | [] \<Rightarrow> s1);
         ds = takeWhile is_digit s2
     in if ds = [] then None
        else Some (to_Number neg (digits_val ds)))"

subsection \<open>The entities of the result (types.ts)\<close>

text \<open>
  The fields the function fills with \<open>x.f || default\<close> or \<open>x.f\<close> hold whatever value the
  document had there, so their type is \<open>jsval\<close>. A \<open>string | undefined\<close> or
  \<open>string | null\<close> field that only ever holds an identifier is a \<open>string option\<close>.
  \<open>parent_id\<close> holds the raw token of the document after the first pass and the new
  identifier (\<open>JStr\<close>) or \<open>null\<close> after the second.
\<close>

record Board =
  b_id :: string
  b_name :: jsval
  b_key :: jsval
  b_type :: jsval
  b_columns :: jsval

record Sprint =
  s_id :: string
  s_board_id :: string
  s_name :: jsval
  s_status :: jsval
  s_goal :: jsval
  s_start_date :: jsval
  s_end_date :: jsval

record Ticket =
  t_id :: string
  t_board_id :: "string option"
  t_sprint_id :: "string option"
  t_title :: jsval
  t_description :: jsval
  t_status :: jsval
  t_type :: jsval
  t_priority :: jsval
  t_story_points :: jsval
  t_labels :: jsval
  t_is_flagged :: bool
  t_parent_id :: jsval
  t_assignee_id :: "string option"
  t_created_at :: string

record Stats =
  n_boards :: nat
  n_sprints :: nat
  n_tickets :: nat

record ParsedResult =
  boards :: "Board list"
  sprints :: "Sprint list"
  tickets :: "Ticket list"
  stats :: Stats

subsection \<open>The environment and the state of one call\<close>

text \<open>
  What the function takes from the platform: \<open>JSON.parse\<close> (\<open>None\<close> when it throws),
  \<open>crypto.randomUUID()\<close> as the sequence of its draws during the call (\<open>randomUUID env n\<close>
  is draw number \<open>n\<close>), and \<open>new Date().toISOString()\<close>, read once for each ticket:
  \<open>toISOString env n\<close> is the reading made for the ticket that took draw \<open>n\<close>.
\<close>

record env =
  JSON_parse :: "string \<Rightarrow> jsval option"
  randomUUID :: "nat \<Rightarrow> string"
  toISOString :: "nat \<Rightarrow> string"

text \<open>
  What leaves the function by \<open>throw\<close>: \<open>ParseError\<close> is the
  \<open>Error("Invalid JSON format")\<close> of its \<open>catch\<close> block, \<open>TypeError\<close> the error of the
  language for a property read from \<open>null\<close>, a property written to a primitive or a call
  of what is not a function. Nothing catches the second.
\<close>

datatype error = ParseError | TypeError

text \<open>
  \<open>data.tickets\<close>: either not an array, or an array whose entries are the tickets of the
  document, each with what the board stage wrote into its \<open>_temp_board_id\<close> (\<open>None\<close>: the
  board stage did not write, the property is as parsed).
\<close>

datatype worklist = NotArray jsval | Entries "(key option \<times> jsval) list"

text \<open>
  The state of a call: \<open>result\<close> so far (the fields of \<open>ParsedResult\<close>), the three maps
  from the identifiers of the document to the new ones, the number of draws made, and
  \<open>data.tickets\<close>, which the board stage extends.
\<close>

record state = ParsedResult +
  boardMap :: "key \<rightharpoonup> string"
  sprintMap :: "key \<rightharpoonup> string"
  ticketMap :: "key \<rightharpoonup> string"
  draws :: nat
  data_tickets :: worklist

definition wrap_tickets :: "jsval \<Rightarrow> worklist" where
  "wrap_tickets v = (case v of JArr ts \<Rightarrow> Entries (map (Pair None) ts) | _ \<Rightarrow> NotArray v)"

text \<open>\<open>t._temp_board_id\<close> as the first pass reads it.\<close>

fun temp_board_id :: "key option \<times> jsval \<Rightarrow> key" where
  "temp_board_id (Some k, t) = k"
| "temp_board_id (None, t) = ref_key (getProp t ''_temp_board_id'')"

text \<open>\<open>xs.forEach(f)\<close>, where \<open>f\<close> updates the state or throws.\<close>

fun forEach :: "('s \<Rightarrow> 'a \<Rightarrow> error + 's) \<Rightarrow> 'a list \<Rightarrow> 's \<Rightarrow> error + 's" where
  "forEach f [] st = Inr st"
| "forEach f (x # xs) st = (case f st x of Inl e \<Rightarrow> Inl e | Inr st' \<Rightarrow> forEach f xs st')"

text \<open>\<open>if (v && Array.isArray(v)) v.forEach(f)\<close>\<close>

fun forEach_array :: "('s \<Rightarrow> jsval \<Rightarrow> error + 's) \<Rightarrow> jsval \<Rightarrow> 's \<Rightarrow> error + 's" where
  "forEach_array f (JArr xs) st = forEach f xs st"
| "forEach_array f v st = Inr st"

subsection \<open>Stage 1: boards, their sprints, their tickets\<close>

text \<open>1a: the body of \<open>b.sprints.forEach\<close>; \<open>newId\<close> is the new identifier of the board.\<close>

definition processSprint :: "env \<Rightarrow> string \<Rightarrow> state \<Rightarrow> jsval \<Rightarrow> error + state" where
  "processSprint env newId st s =
    (let n = draws st;
         newSprintId = randomUUID env n
     in if nullish s then Inl TypeError
        else
          let sid = getProp s ''id'';
              sm = (if truthy sid then (sprintMap st)(id_key n sid \<mapsto> newSprintId)
                    else sprintMap st)
          in Inr (st\<lparr>draws := Suc n, sprintMap := sm,
                sprints := sprints st @
                  [\<lparr>s_id = newSprintId,
                    s_board_id = newId,
                    s_name = orElse (getProp s ''name'') (JStr ''Imported Sprint''),
                    s_status = orElse (getProp s ''status'') (JStr ''future''),
                    s_goal = getProp s ''goal'',
                    s_start_date = getProp s ''start_date'',
                    s_end_date = getProp s ''end_date''\<rparr>]\<rparr>))"

text \<open>
  \<open>if (!data.tickets) data.tickets = []; data.tickets.push(t)\<close>: a truthy
  \<open>data.tickets\<close> that is not an array has no \<open>push\<close>, and the call throws.
\<close>

definition push_ticket :: "worklist \<Rightarrow> key option \<times> jsval \<Rightarrow> error + worklist" where
  "push_ticket w e =
    (case w of
       Entries es \<Rightarrow> Inr (Entries (es @ [e]))
     | NotArray v \<Rightarrow> if truthy v then Inl TypeError else Inr (Entries [e]))"

text \<open>
  1b: the body of \<open>b.tickets.forEach\<close>; \<open>bkey\<close> is \<open>b.id\<close>. The assignment
  \<open>t._temp_board_id = b.id\<close> throws on \<open>null\<close> and, the file being a module and so strict
  code, on a primitive.
\<close>

definition tagTicket :: "key \<Rightarrow> state \<Rightarrow> jsval \<Rightarrow> error + state" where
  "tagTicket bkey st t =
    (if \<not> is_object t then Inl TypeError
     else case push_ticket (data_tickets st) (Some bkey, t) of
            Inl e \<Rightarrow> Inl e
          | Inr w \<Rightarrow> Inr (st\<lparr>data_tickets := w\<rparr>))"

text \<open>
  1: the body of \<open>data.boards.forEach\<close>. \<open>pushBoard\<close> is its start, up to
  \<open>result.boards.push(newBoard)\<close>; \<open>b.id\<close> throws on \<open>null\<close>.
\<close>

definition pushBoard :: "env \<Rightarrow> state \<Rightarrow> jsval \<Rightarrow> state" where
  "pushBoard env st b =
    (let n = draws st;
         newId = randomUUID env n;
         bid = getProp b ''id'';
         bm = (if truthy bid then (boardMap st)(id_key n bid \<mapsto> newId) else boardMap st);
         newBoard = \<lparr>b_id = newId,
                     b_name = orElse (getProp b ''name'') (JStr ''Imported Project''),
                     b_key = orElse (getProp b ''key'') (JStr ''IMP''),
                     b_type = orElse (getProp b ''type'') (JStr ''kanban''),
                     b_columns = orElse (getProp b ''columns'') (JArr [])\<rparr>
     in st\<lparr>draws := Suc n, boardMap := bm, boards := boards st @ [newBoard]\<rparr>)"

definition processBoard :: "env \<Rightarrow> state \<Rightarrow> jsval \<Rightarrow> error + state" where
  "processBoard env st b =
    (let n = draws st;
         newId = randomUUID env n
     in if nullish b then Inl TypeError
        else
          case forEach_array (processSprint env newId) (getProp b ''sprints'') (pushBoard env st b) of
            Inl e \<Rightarrow> Inl e
          | Inr st2 \<Rightarrow> forEach_array (tagTicket (id_key n (getProp b ''id''))) (getProp b ''tickets'') st2)"

subsection \<open>Stage 2: tickets\<close>

text \<open>\<open>m.has(k) ? m.get(k) : none\<close> guarded by the truthiness of the key.\<close>

definition lookup :: "(key \<rightharpoonup> string) \<Rightarrow> key \<Rightarrow> string option" where
  "lookup m k = (if truthy_key k then m k else None)"

text \<open>
  The safe parsing of story points: only a string is parsed, and \<open>NaN\<close> becomes
  \<open>undefined\<close>.
\<close>

fun parsePoints :: "jsval \<Rightarrow> jsval" where
  "parsePoints (JStr s) = (case parseInt s of None \<Rightarrow> JUndefined | Some v \<Rightarrow> v)"
| "parsePoints v = v"

text \<open>The resolution of the board of a ticket, in the order of the \<open>if\<close> chain.\<close>

definition resolveBoard :: "string option \<Rightarrow> state \<Rightarrow> key option \<times> jsval \<Rightarrow> string option" where
  "resolveBoard currentBoardId st e =
    (if lookup (boardMap st) (temp_board_id e) \<noteq> None
       then lookup (boardMap st) (temp_board_id e)
     else if lookup (boardMap st) (ref_key (getProp (snd e) ''board_id'')) \<noteq> None
       then lookup (boardMap st) (ref_key (getProp (snd e) ''board_id''))
     else if \<not> truthy_str currentBoardId \<and> boards st \<noteq> []
       then Some (b_id (hd (boards st)))
     else currentBoardId)"

text \<open>The object the first pass pushes for the entry \<open>e\<close>, in the state \<open>st\<close> before it.\<close>

definition newTicket :: "env \<Rightarrow> string option \<Rightarrow> state \<Rightarrow> key option \<times> jsval \<Rightarrow> Ticket" where
  "newTicket env currentBoardId st e =
    (let t = snd e;
         newId = randomUUID env (draws st);
         targetBoardId = resolveBoard currentBoardId st e;
         targetSprintId = lookup (sprintMap st) (ref_key (getProp t ''sprint_id''));
         parsedPoints = parsePoints (getProp t ''story_points'')
     in \<lparr>t_id = newId,
         t_board_id = targetBoardId,
         t_sprint_id = targetSprintId,
         t_title = orElse (getProp t ''title'') (JStr ''Untitled Ticket''),
         t_description = orElse (getProp t ''description'') (JStr ''''),
         t_status = orElse (getProp t ''status'') (JStr ''Todo''),
         t_type = orElse (getProp t ''type'') (JStr ''Story''),
         t_priority = orElse (getProp t ''priority'') (JStr ''Medium''),
         t_story_points = parsedPoints,
         t_labels = orElse (getProp t ''labels'') (JArr []),
         t_is_flagged = truthy (getProp t ''is_flagged''),
         t_parent_id = orElse (getProp t ''parent_id'') JNull,
         t_assignee_id = None,
         t_created_at = toISOString env (draws st)\<rparr>)"

text \<open>First pass: the body of \<open>data.tickets.forEach\<close>; \<open>t.id\<close> throws on \<open>null\<close>.\<close>

definition processTicket :: "env \<Rightarrow> string option \<Rightarrow> state \<Rightarrow> key option \<times> jsval \<Rightarrow> error + state" where
  "processTicket env currentBoardId st e =
    (let t = snd e;
         n = draws st;
         newId = randomUUID env n
     in if nullish t then Inl TypeError
        else
          let tid = getProp t ''id'';
              tm = (if truthy tid then (ticketMap st)(id_key n tid \<mapsto> newId) else ticketMap st)
          in Inr (st\<lparr>draws := Suc n, ticketMap := tm,
                tickets := tickets st @ [newTicket env currentBoardId st e]\<rparr>))"

text \<open>Second pass: the body of \<open>result.tickets.forEach\<close>.\<close>

definition linkParent :: "(key \<rightharpoonup> string) \<Rightarrow> Ticket \<Rightarrow> Ticket" where
  "linkParent tm ticket =
    (case lookup tm (ref_key (t_parent_id ticket)) of
       Some newId \<Rightarrow> ticket\<lparr>t_parent_id := JStr newId\<rparr>
     | None \<Rightarrow> ticket\<lparr>t_parent_id := JNull\<rparr>)"

subsection \<open>The whole function\<close>

definition init_state :: "jsval \<Rightarrow> state" where
  "init_state data =
    \<lparr>boards = [], sprints = [], tickets = [],
     stats = \<lparr>n_boards = 0, n_sprints = 0, n_tickets = 0\<rparr>,
     boardMap = Map.empty, sprintMap = Map.empty, ticketMap = Map.empty,
     draws = 0,
     data_tickets = wrap_tickets (getProp data ''tickets'')\<rparr>"

definition finish :: "state \<Rightarrow> ParsedResult" where
  "finish st =
    \<lparr>boards = boards st, sprints = sprints st, tickets = tickets st,
     stats = \<lparr>n_boards = length (boards st), n_sprints = length (sprints st),
              n_tickets = length (tickets st)\<rparr>\<rparr>"

text \<open>Stage 1 on the parsed document.\<close>

definition boardStage :: "env \<Rightarrow> jsval \<Rightarrow> error + state" where
  "boardStage env data = forEach_array (processBoard env) (getProp data ''boards'') (init_state data)"

text \<open>Stage 2 on the state stage 1 left.\<close>

definition ticketStage :: "env \<Rightarrow> string option \<Rightarrow> state \<Rightarrow> error + state" where
  "ticketStage env currentBoardId st1 =
    (case data_tickets st1 of
       Entries es \<Rightarrow>
         (case forEach (processTicket env currentBoardId) es st1 of
            Inl e \<Rightarrow> Inl e
          | Inr st2 \<Rightarrow> Inr (st2\<lparr>tickets := map (linkParent (ticketMap st2)) (tickets st2)\<rparr>))
     | NotArray v \<Rightarrow> Inr st1)"

text \<open>The function after \<open>JSON.parse\<close>; \<open>data.boards\<close> throws on \<open>null\<close>.\<close>

definition importData :: "env \<Rightarrow> jsval \<Rightarrow> string option \<Rightarrow> error + ParsedResult" where
  "importData env data currentBoardId =
    (if nullish data then Inl TypeError
     else case boardStage env data of
            Inl e \<Rightarrow> Inl e
          | Inr st1 \<Rightarrow>
              (case ticketStage env currentBoardId st1 of
                 Inl e \<Rightarrow> Inl e
               | Inr st2 \<Rightarrow> Inr (finish st2)))"

definition parseJsonImport :: "env \<Rightarrow> string \<Rightarrow> string option \<Rightarrow> error + ParsedResult" where
  "parseJsonImport env jsonString currentBoardId =
    (case JSON_parse env jsonString of
       None \<Rightarrow> Inl ParseError
     | Some data \<Rightarrow> importData env data currentBoardId)"

section \<open>Auxiliary definitions\<close>

subsection \<open>Invariants of the state\<close>

text \<open>
  Invariants of the state. The board and sprint maps hold only identifiers of boards and
  sprints already pushed; during stage 1 there is no ticket yet; a pushed ticket refers to
  a pushed sprint, and to a pushed board or to \<open>currentBoardId\<close>.
\<close>

definition maps_closed :: "state \<Rightarrow> bool" where
  "maps_closed st \<longleftrightarrow>
     (\<forall>k v. boardMap st k = Some v \<longrightarrow> v \<in> b_id ` set (boards st)) \<and>
     (\<forall>k v. sprintMap st k = Some v \<longrightarrow> v \<in> s_id ` set (sprints st))"

definition no_tickets :: "state \<Rightarrow> bool" where
  "no_tickets st \<longleftrightarrow> tickets st = [] \<and> ticketMap st = Map.empty"

definition ticket_closed :: "string option \<Rightarrow> state \<Rightarrow> Ticket \<Rightarrow> bool" where
  "ticket_closed cb st t \<longleftrightarrow>
     (t_sprint_id t = None \<or> t_sprint_id t \<in> Some ` s_id ` set (sprints st)) \<and>
     (t_board_id t \<in> Some ` b_id ` set (boards st) \<or>
      (t_board_id t = cb \<and> (truthy_str cb \<or> boards st = [])))"

definition tickets_closed :: "string option \<Rightarrow> state \<Rightarrow> bool" where
  "tickets_closed cb st \<longleftrightarrow>
     (\<forall>k v. ticketMap st k = Some v \<longrightarrow> v \<in> t_id ` set (tickets st)) \<and>
     list_all (ticket_closed cb st) (tickets st)"

text \<open>The identifiers given out so far, and those of a result, entity by entity.\<close>

definition all_ids :: "state \<Rightarrow> string list" where
  "all_ids st = map b_id (boards st) @ map s_id (sprints st) @ map t_id (tickets st)"

text \<open>They are the draws made so far, one for each entity.\<close>

definition ids_drawn :: "env \<Rightarrow> state \<Rightarrow> bool" where
  "ids_drawn env st \<longleftrightarrow>
     set (all_ids st) = randomUUID env ` {..<draws st} \<and> length (all_ids st) = draws st"

definition result_ids :: "ParsedResult \<Rightarrow> string list" where
  "result_ids r = map b_id (boards r) @ map s_id (sprints r) @ map t_id (tickets r)"

subsection \<open>The working list\<close>

text \<open>
  The tickets a board of the document nests, in order, and the entries of the working
  list that the board stage wrote to.
\<close>

definition nested_tickets :: "jsval \<Rightarrow> jsval list" where
  "nested_tickets b = (case getProp b ''tickets'' of JArr ts \<Rightarrow> ts | _ \<Rightarrow> [])"

definition tagged :: "key option \<times> jsval \<Rightarrow> bool" where
  "tagged e \<longleftrightarrow> fst e \<noteq> None"

text \<open>
  The ticket \<open>t\<close> of the document received a new identifier under the token \<open>p\<close>: its
  \<open>id\<close> is \<open>p\<close>, truthy (so that \<open>ticketMap.set\<close> ran) and a primitive (an object read
  from a \<open>parent_id\<close> is never the object of an \<open>id\<close>).
\<close>

definition carries_token :: "jsval \<Rightarrow> jsval \<Rightarrow> bool" where
  "carries_token t p \<longleftrightarrow> truthy p \<and> \<not> is_object p \<and> getProp t ''id'' = p"

subsection \<open>The priority order of the board, as specified and as amended\<close>

text \<open>
  The priority order of the board of a ticket as the specification words it: (a) the tag of
  the board stage through the board map, (b) the ticket's own \<open>board_id\<close> through the
  board map, (c) the fallback when supplied, (d) the first board of the import, (e) unset.
\<close>

definition spec_board_priority :: "string option \<Rightarrow> (key \<rightharpoonup> string) \<Rightarrow> Board list \<Rightarrow> key option \<times> jsval \<Rightarrow> string option" where
  "spec_board_priority fallbackBoardId bm bs e =
    (case (case fst e of Some tag \<Rightarrow> lookup bm tag | None \<Rightarrow> None) of
       Some i \<Rightarrow> Some i
     | None \<Rightarrow>
        (case lookup bm (ref_key (getProp (snd e) ''board_id'')) of
           Some i \<Rightarrow> Some i
         | None \<Rightarrow>
            (case fallbackBoardId of
               Some c \<Rightarrow> Some c
             | None \<Rightarrow> (case bs of b # rest \<Rightarrow> Some (b_id b) | [] \<Rightarrow> None))))"

text \<open>
  The same order with step (c) as the code tests it: the fallback counts only when it is
  truthy (supplied and not the empty string); when neither (c) nor (d) applies the field
  keeps the fallback as given (unset, or the empty string).
\<close>

definition amended_board_priority :: "string option \<Rightarrow> (key \<rightharpoonup> string) \<Rightarrow> Board list \<Rightarrow> key option \<times> jsval \<Rightarrow> string option" where
  "amended_board_priority fallbackBoardId bm bs e =
    (case (case fst e of Some tag \<Rightarrow> lookup bm tag | None \<Rightarrow> None) of
       Some i \<Rightarrow> Some i
     | None \<Rightarrow>
        (case lookup bm (ref_key (getProp (snd e) ''board_id'')) of
           Some i \<Rightarrow> Some i
         | None \<Rightarrow>
            if truthy_str fallbackBoardId then fallbackBoardId
            else (case bs of b # rest \<Rightarrow> Some (b_id b) | [] \<Rightarrow> fallbackBoardId)))"

subsection \<open>The range of story points, as specified\<close>


subsection \<open>What \<open>parseInt(s, 10)\<close> reads in a string\<close>


text \<open>
  What \<open>parseInt(s, 10)\<close> finds in a string, said by the shape of the string.
  \<open>reads_integer s neg ds\<close>: the string is white space, then an optional sign (\<open>neg\<close> for
  the minus sign), then the digits \<open>ds\<close>, at least one, then a rest that does not start
  with a digit.
\<close>

definition reads_integer :: "string \<Rightarrow> bool \<Rightarrow> string \<Rightarrow> bool" where
  "reads_integer s neg ds \<longleftrightarrow>
     (\<exists>ws sg rest.
        s = ws @ sg @ ds @ rest \<and> list_all is_space ws \<and>
        (sg, neg) \<in> set [('''', False), (''+'', False), (''-'', True)] \<and>
        ds \<noteq> [] \<and> list_all is_digit ds \<and> (rest = [] \<or> \<not> is_digit (hd rest)))"

text \<open>
  \<open>reads_no_integer s\<close>: the string is white space, then an optional sign, then a rest that
  does not start with a digit. (Where there is no sign the rest starts with no white
  space and no sign either: the white space and the sign are all there is of them.)
\<close>

definition reads_no_integer :: "string \<Rightarrow> bool" where
  "reads_no_integer s \<longleftrightarrow>
     (\<exists>ws sg rest.
        s = ws @ sg @ rest \<and> list_all is_space ws \<and> sg \<in> set ['''', ''+'', ''-''] \<and>
        (rest = [] \<or> \<not> is_digit (hd rest)) \<and>
        (sg = [] \<longrightarrow> rest = [] \<or> (\<not> is_space (hd rest) \<and> hd rest \<notin> set ''+-'')))"

subsection \<open>Two results up to a renaming of the identifiers\<close>

text \<open>
  Renaming of the generated identifiers by \<open>f\<close>. Two results are equivalent up to \<open>f\<close>
  when the second is the first with every identifier and reference renamed; the time
  stamps \<open>created_at\<close>, read from the clock of each call, are not compared.
\<close>

definition rename_board :: "(string \<Rightarrow> string) \<Rightarrow> Board \<Rightarrow> Board" where
  "rename_board f b = b\<lparr>b_id := f (b_id b)\<rparr>"

definition rename_sprint :: "(string \<Rightarrow> string) \<Rightarrow> Sprint \<Rightarrow> Sprint" where
  "rename_sprint f s = s\<lparr>s_id := f (s_id s), s_board_id := f (s_board_id s)\<rparr>"

definition rename_refs :: "(string \<Rightarrow> string) \<Rightarrow> Ticket \<Rightarrow> Ticket" where
  "rename_refs f t =
     t\<lparr>t_id := f (t_id t), t_board_id := map_option f (t_board_id t),
       t_sprint_id := map_option f (t_sprint_id t)\<rparr>"

fun rename_parent :: "(string \<Rightarrow> string) \<Rightarrow> jsval \<Rightarrow> jsval" where
  "rename_parent f (JStr x) = JStr (f x)"
| "rename_parent f v = v"

definition rename_ticket :: "(string \<Rightarrow> string) \<Rightarrow> Ticket \<Rightarrow> Ticket" where
  "rename_ticket f t = (rename_refs f t)\<lparr>t_parent_id := rename_parent f (t_parent_id t)\<rparr>"

definition equivalent :: "(string \<Rightarrow> string) \<Rightarrow> ParsedResult \<Rightarrow> ParsedResult \<Rightarrow> bool" where
  "equivalent f r r' \<longleftrightarrow>
     boards r' = map (rename_board f) (boards r) \<and>
     sprints r' = map (rename_sprint f) (sprints r) \<and>
     list_all2 (\<lambda>t t'. t'\<lparr>t_created_at := t_created_at t\<rparr> = rename_ticket f t)
       (tickets r) (tickets r') \<and>
     stats r' = stats r"

text \<open>The same for two states in the course of two calls; \<open>parent_id\<close> still holds the raw token.\<close>

definition renamed_state :: "(string \<Rightarrow> string) \<Rightarrow> state \<Rightarrow> state \<Rightarrow> bool" where
  "renamed_state f st st' \<longleftrightarrow>
     boards st' = map (rename_board f) (boards st) \<and>
     sprints st' = map (rename_sprint f) (sprints st) \<and>
     list_all2 (\<lambda>t t'. t'\<lparr>t_created_at := t_created_at t\<rparr> = rename_refs f t)
       (tickets st) (tickets st') \<and>
     boardMap st' = (\<lambda>k. map_option f (boardMap st k)) \<and>
     sprintMap st' = (\<lambda>k. map_option f (sprintMap st k)) \<and>
     ticketMap st' = (\<lambda>k. map_option f (ticketMap st k)) \<and>
     draws st' = draws st \<and>
     data_tickets st' = data_tickets st"

text \<open>The platform as a later call finds it: the generator has made \<open>k\<close> draws since.\<close>

definition later_env :: "env \<Rightarrow> nat \<Rightarrow> env" where
  "later_env env k = env\<lparr>randomUUID := (\<lambda>n. randomUUID env (k + n))\<rparr>"

subsection \<open>Sample platform and documents\<close>

text \<open>
  A platform to run the function on: \<open>JSON.parse\<close> knows one text and its value, the
  generator draws \<open>u\<close>, \<open>uu\<close>, \<open>uuu\<close>, ..., the clock stands still.
\<close>

definition sample_uuid :: "nat \<Rightarrow> string" where
  "sample_uuid n = replicate (Suc n) CHR ''u''"

definition sample_env :: "string \<Rightarrow> jsval \<Rightarrow> env" where
  "sample_env text doc =
    \<lparr>JSON_parse = (\<lambda>s. if s = text then Some doc else None),
     randomUUID = sample_uuid,
     toISOString = (\<lambda>n. ''2026-01-01T00:00:00.000Z'')\<rparr>"

text \<open>One board \<open>b1\<close> with the sprint \<open>s1\<close>, an Epic \<open>e1\<close> and a Story of that epic and sprint.\<close>

definition scenario_text :: string where
  \<open>scenario_text = ''{"boards":[{"id":"b1","sprints":[{"id":"s1"}],"tickets":[{"id":"e1","type":"Epic"},{"type":"Story","parent_id":"e1","sprint_id":"s1"}]}]}''\<close>

definition scenario_doc :: jsval where
  "scenario_doc =
    JObj [(''boards'', JArr [JObj
      [(''id'', JStr ''b1''),
       (''sprints'', JArr [JObj [(''id'', JStr ''s1'')]]),
       (''tickets'', JArr
          [JObj [(''id'', JStr ''e1''), (''type'', JStr ''Epic'')],
           JObj [(''type'', JStr ''Story''), (''parent_id'', JStr ''e1''),
                 (''sprint_id'', JStr ''s1'')]])]])]"

text \<open>
  One board without a token and one ticket beside it; a child listed before its parent,
  and an orphan; a ticket nested under a board and one beside it; story points of several
  kinds; two boards, each with its sprint; tickets that name their board in three ways.
\<close>

definition flat_text :: string where
  \<open>flat_text = ''{"boards":[{}],"tickets":[{}]}''\<close>

definition flat_doc :: jsval where
  "flat_doc = JObj [(''boards'', JArr [JObj []]), (''tickets'', JArr [JObj []])]"

definition forward_text :: string where
  \<open>forward_text = ''{"tickets":[{"parent_id":"e1"},{"id":"e1","type":"Epic"},{"parent_id":"gone"}]}''\<close>

definition forward_doc :: jsval where
  "forward_doc =
    JObj [(''tickets'', JArr
      [JObj [(''parent_id'', JStr ''e1'')],
       JObj [(''id'', JStr ''e1''), (''type'', JStr ''Epic'')],
       JObj [(''parent_id'', JStr ''gone'')]])]"

definition order_text :: string where
  \<open>order_text = ''{"boards":[{"id":"b1","tickets":[{"title":"N"}]}],"tickets":[{"title":"T"}]}''\<close>

definition order_doc :: jsval where
  "order_doc =
    JObj [(''boards'', JArr [JObj [(''id'', JStr ''b1''),
                                   (''tickets'', JArr [JObj [(''title'', JStr ''N'')]])]]),
          (''tickets'', JArr [JObj [(''title'', JStr ''T'')]])]"





definition cross_text :: string where
  \<open>cross_text = ''{"boards":[{"id":"b1","sprints":[{"id":"s1"}],"tickets":[{"sprint_id":"s2"}]},{"id":"b2","sprints":[{"id":"s2"}]}]}''\<close>

definition cross_doc :: jsval where
  "cross_doc =
    JObj [(''boards'', JArr
      [JObj [(''id'', JStr ''b1''),
             (''sprints'', JArr [JObj [(''id'', JStr ''s1'')]]),
             (''tickets'', JArr [JObj [(''sprint_id'', JStr ''s2'')]])],
       JObj [(''id'', JStr ''b2''),
             (''sprints'', JArr [JObj [(''id'', JStr ''s2'')]])]])]"

definition priority_text :: string where
  \<open>priority_text = ''{"boards":[{"id":"b1","tickets":[{"title":"N"}]}],"tickets":[{"board_id":"b1"},{}]}''\<close>

definition priority_doc :: jsval where
  "priority_doc =
    JObj [(''boards'', JArr [JObj [(''id'', JStr ''b1''),
                                   (''tickets'', JArr [JObj [(''title'', JStr ''N'')]])]]),
          (''tickets'', JArr [JObj [(''board_id'', JStr ''b1'')], JObj []])]"

definition null_entry_text :: string where
  \<open>null_entry_text = ''{"tickets":[null]}''\<close>

text \<open>
  Documents \<open>JSON.parse\<close> accepts on which the function throws: \<open>null\<close>; a \<open>null\<close> entry
  among the tickets, the boards or the sprints of a board; a number among the tickets of a
  board; tickets nested under a board while the top-level \<open>tickets\<close> is the number 5.
\<close>

definition throwing_docs :: "jsval list" where
  "throwing_docs =
    [JNull,
     JObj [(''tickets'', JArr [JNull])],
     JObj [(''boards'', JArr [JNull])],
     JObj [(''boards'', JArr [JObj [(''sprints'', JArr [JNull])]])],
     JObj [(''boards'', JArr [JObj [(''tickets'', JArr [JNum 1])]])],
     JObj [(''boards'', JArr [JObj [(''tickets'', JArr [JObj []])]]), (''tickets'', JNum 5)]]"

section \<open>Properties\<close>

text \<open>The equations that run the function on a given document.\<close>

lemmas run_defs = parseJsonImport_def importData_def boardStage_def ticketStage_def
  init_state_def wrap_tickets_def processBoard_def pushBoard_def processSprint_def tagTicket_def
  push_ticket_def processTicket_def newTicket_def resolveBoard_def lookup_def
  linkParent_def finish_def id_key_def ref_key_def orElse_def Let_def

lemmas sample_defs = sample_env_def sample_uuid_def

subsection \<open>The scenario of a nested board\<close>

text \<open>
  C7. On the document with one board (token \<open>b1\<close>), one sprint (token \<open>s1\<close>) under it and
  two tickets under it, an Epic with token \<open>e1\<close> and a Story with parent \<open>e1\<close> and sprint
  \<open>s1\<close>, the function returns one board, one sprint and two tickets; the identifiers are
  the four draws of the generator; the sprint's \<open>board_id\<close> is the new identifier of the
  board, the Story's \<open>parent_id\<close> the new identifier of the Epic and its \<open>sprint_id\<close> the
  new identifier of the sprint.
\<close>

theorem scenario_nested_board:
  assumes "JSON_parse env jsonString = Some scenario_doc"
  shows "\<exists>r b sp epic story.
           parseJsonImport env jsonString currentBoardId = Inr r \<and>
           boards r = [b] \<and> sprints r = [sp] \<and> tickets r = [epic, story] \<and>
           stats r = \<lparr>n_boards = 1, n_sprints = 1, n_tickets = 2\<rparr> \<and>
           b_id b = randomUUID env 0 \<and> s_id sp = randomUUID env 1 \<and>
           t_id epic = randomUUID env 2 \<and> t_id story = randomUUID env 3 \<and>
           t_type epic = JStr ''Epic'' \<and> t_type story = JStr ''Story'' \<and>
           s_board_id sp = b_id b \<and>
           t_parent_id story = JStr (t_id epic) \<and>
           t_sprint_id story = Some (s_id sp)"
  using assms by (simp add: run_defs scenario_doc_def eval_nat_numeral)

theorem scenario_nested_board_witness:
  "JSON_parse (sample_env scenario_text scenario_doc) scenario_text = Some scenario_doc \<and>
   (\<exists>r b sp epic story.
      parseJsonImport (sample_env scenario_text scenario_doc) scenario_text None = Inr r \<and>
      boards r = [b] \<and> sprints r = [sp] \<and> tickets r = [epic, story] \<and>
      stats r = \<lparr>n_boards = 1, n_sprints = 1, n_tickets = 2\<rparr> \<and>
      b_id b = ''u'' \<and> s_id sp = ''uu'' \<and> t_id epic = ''uuu'' \<and> t_id story = ''uuuu'' \<and>
      t_type epic = JStr ''Epic'' \<and> t_type story = JStr ''Story'' \<and>
      s_board_id sp = ''u'' \<and>
      t_parent_id story = JStr ''uuu'' \<and>
      t_sprint_id story = Some ''uu'')"
proof -
  have h: "JSON_parse (sample_env scenario_text scenario_doc) scenario_text = Some scenario_doc"
    by (simp add: sample_env_def)
  show ?thesis
    using h scenario_nested_board [OF h, of None]
    by (auto simp: sample_defs eval_nat_numeral)
qed

subsection \<open>Loops\<close>

lemma forEach_invariant:
  assumes "forEach f xs st = Inr st'" and "P st"
    and "\<And>s x s'. P s \<Longrightarrow> x \<in> set xs \<Longrightarrow> f s x = Inr s' \<Longrightarrow> P s'"
  shows "P st'"
  using assms
proof (induction xs arbitrary: st)
  case Nil
  then show ?case by simp
next
  case (Cons x xs)
  from Cons.prems(1) obtain s1 where s1: "f st x = Inr s1" and rest: "forEach f xs s1 = Inr st'"
    by (auto split: sum.splits)
  have "P s1" by (rule Cons.prems(3) [OF Cons.prems(2) _ s1]) simp
  moreover have "P s \<Longrightarrow> y \<in> set xs \<Longrightarrow> f s y = Inr s' \<Longrightarrow> P s'" for s y s'
    by (rule Cons.prems(3)) auto
  ultimately show ?case using Cons.IH [OF rest] by blast
qed

lemma forEach_array_invariant:
  assumes "forEach_array f v st = Inr st'" and "P st"
    and "\<And>s x s'. P s \<Longrightarrow> f s x = Inr s' \<Longrightarrow> P s'"
  shows "P st'"
proof (cases v)
  case (JArr xs)
  then show ?thesis using assms forEach_invariant [of f xs st st' P] by simp
qed (use assms in auto)

lemma forEach_snoc:
  "forEach f (xs @ [x]) st = (case forEach f xs st of Inl e \<Rightarrow> Inl e | Inr st' \<Rightarrow> f st' x)"
  by (induction xs arbitrary: st) (auto split: sum.splits)

subsection \<open>What each step changes\<close>

lemma processSprint_Inr:
  assumes "processSprint env newId st s = Inr st'"
  shows "boards st' = boards st" and "boardMap st' = boardMap st" and "tickets st' = tickets st"
    and "ticketMap st' = ticketMap st" and "data_tickets st' = data_tickets st"
    and "draws st' = Suc (draws st)"
    and "\<exists>sp. sprints st' = sprints st @ [sp] \<and> s_id sp = randomUUID env (draws st) \<and>
           s_board_id sp = newId"
    and "sprintMap st' = sprintMap st \<or>
         (\<exists>k. sprintMap st' = (sprintMap st)(k \<mapsto> randomUUID env (draws st)))"
  using assms by (auto simp: processSprint_def Let_def split: if_splits)

lemma tagTicket_Inr:
  assumes "tagTicket k st t = Inr st'"
  shows "boards st' = boards st" and "boardMap st' = boardMap st" and "tickets st' = tickets st"
    and "ticketMap st' = ticketMap st" and "sprints st' = sprints st"
    and "sprintMap st' = sprintMap st" and "draws st' = draws st"
  using assms by (auto simp: tagTicket_def split: if_splits sum.splits)

lemma pushBoard_fields:
  shows "sprints (pushBoard env st b) = sprints st"
    and "sprintMap (pushBoard env st b) = sprintMap st"
    and "tickets (pushBoard env st b) = tickets st"
    and "ticketMap (pushBoard env st b) = ticketMap st"
    and "data_tickets (pushBoard env st b) = data_tickets st"
    and "draws (pushBoard env st b) = Suc (draws st)"
    and "\<exists>nb. boards (pushBoard env st b) = boards st @ [nb] \<and> b_id nb = randomUUID env (draws st)"
    and "boardMap (pushBoard env st b) = boardMap st \<or>
         (\<exists>k. boardMap (pushBoard env st b) = (boardMap st)(k \<mapsto> randomUUID env (draws st)))"
  by (auto simp: pushBoard_def Let_def)

subsection \<open>Stage 1 keeps the maps closed\<close>

lemma processSprint_closed:
  assumes "processSprint env newId st s = Inr st'" and "maps_closed st \<and> no_tickets st"
  shows "maps_closed st' \<and> no_tickets st'"
proof -
  note f = processSprint_Inr [OF assms(1)]
  from f(7) obtain sp where sp: "sprints st' = sprints st @ [sp]" "s_id sp = randomUUID env (draws st)"
    by blast
  have "sprintMap st' k = Some v \<Longrightarrow> v \<in> s_id ` set (sprints st')" for k v
    using f(8) assms(2) sp by (auto simp: maps_closed_def split: if_splits)
  then show ?thesis
    using assms(2) f(1-4) unfolding maps_closed_def no_tickets_def by simp
qed

lemma tagTicket_closed:
  assumes "tagTicket k st t = Inr st'" and "maps_closed st \<and> no_tickets st"
  shows "maps_closed st' \<and> no_tickets st'"
  using assms(2) tagTicket_Inr [OF assms(1)] unfolding maps_closed_def no_tickets_def by simp

lemma processBoard_Inr:
  assumes "processBoard env st b = Inr st'"
  obtains st2 where "\<not> nullish b"
    and "forEach_array (processSprint env (randomUUID env (draws st))) (getProp b ''sprints'')
           (pushBoard env st b) = Inr st2"
    and "forEach_array (tagTicket (id_key (draws st) (getProp b ''id''))) (getProp b ''tickets'') st2
           = Inr st'"
  using assms by (auto simp: processBoard_def Let_def split: if_splits sum.splits)

lemma pushBoard_closed:
  assumes "maps_closed st \<and> no_tickets st"
  shows "maps_closed (pushBoard env st b) \<and> no_tickets (pushBoard env st b)"
proof -
  note f = pushBoard_fields [of env st b]
  from f(7) obtain nb where nb: "boards (pushBoard env st b) = boards st @ [nb]"
    "b_id nb = randomUUID env (draws st)"
    by blast
  have "boardMap (pushBoard env st b) k = Some v \<Longrightarrow> v \<in> b_id ` set (boards (pushBoard env st b))" for k v
    using f(8) assms nb by (auto simp: maps_closed_def split: if_splits)
  then show ?thesis
    using assms f(1-4) unfolding maps_closed_def no_tickets_def by simp
qed

lemma processBoard_closed:
  assumes "processBoard env st b = Inr st'" and "maps_closed st \<and> no_tickets st"
  shows "maps_closed st' \<and> no_tickets st'"
proof -
  from assms(1) obtain st2 where
    a: "forEach_array (processSprint env (randomUUID env (draws st))) (getProp b ''sprints'')
           (pushBoard env st b) = Inr st2"
    and b: "forEach_array (tagTicket (id_key (draws st) (getProp b ''id''))) (getProp b ''tickets'') st2
           = Inr st'"
    by (rule processBoard_Inr)
  have "maps_closed st2 \<and> no_tickets st2"
    using a pushBoard_closed [OF assms(2)]
    by (rule forEach_array_invariant) (use processSprint_closed in blast)
  with b show ?thesis
    by (rule forEach_array_invariant) (use tagTicket_closed in blast)
qed

lemma init_state_closed: "maps_closed (init_state data) \<and> no_tickets (init_state data)"
  by (simp add: init_state_def maps_closed_def no_tickets_def)

lemma boardStage_closed:
  assumes "boardStage env data = Inr st"
  shows "maps_closed st \<and> no_tickets st"
  using assms [unfolded boardStage_def] init_state_closed
  by (rule forEach_array_invariant) (use processBoard_closed in blast)

lemma lookup_Some: "lookup m k = Some v \<Longrightarrow> m k = Some v"
  by (auto simp: lookup_def split: if_splits)

lemma newTicket_closed:
  assumes "maps_closed st"
  shows "ticket_closed cb st (newTicket env cb st e)"
proof -
  have sp: "lookup (sprintMap st) k = None \<or> lookup (sprintMap st) k \<in> Some ` s_id ` set (sprints st)" for k
    using assms lookup_Some [of "sprintMap st" k] by (cases "lookup (sprintMap st) k") (auto simp: maps_closed_def)
  have bd: "lookup (boardMap st) k \<noteq> None \<Longrightarrow> lookup (boardMap st) k \<in> Some ` b_id ` set (boards st)" for k
    using assms lookup_Some [of "boardMap st" k] by (cases "lookup (boardMap st) k") (auto simp: maps_closed_def)
  have hd: "boards st \<noteq> [] \<Longrightarrow> b_id (hd (boards st)) \<in> b_id ` set (boards st)"
    by simp
  show ?thesis
    unfolding ticket_closed_def newTicket_def Let_def resolveBoard_def
    using sp bd hd by auto
qed

lemma forEach_snoc_Inr:
  assumes "forEach f (xs @ [x]) st = Inr st'"
  obtains st1 where "forEach f xs st = Inr st1" and "f st1 x = Inr st'"
  using assms by (auto simp: forEach_snoc split: sum.splits)

subsection \<open>The first pass, entry by entry\<close>

lemma processTicket_Inr:
  assumes "processTicket env cb st e = Inr st'"
  shows "boards st' = boards st" and "boardMap st' = boardMap st" and "sprints st' = sprints st"
    and "sprintMap st' = sprintMap st" and "data_tickets st' = data_tickets st"
    and "draws st' = Suc (draws st)"
    and "tickets st' = tickets st @ [newTicket env cb st e]"
    and "ticketMap st' =
          (if truthy (getProp (snd e) ''id'')
           then (ticketMap st)(id_key (draws st) (getProp (snd e) ''id'') \<mapsto> randomUUID env (draws st))
           else ticketMap st)"
    and "\<not> nullish (snd e)"
  using assms by (auto simp: processTicket_def Let_def split: if_splits)

lemma newTicket_cong:
  assumes "boards st' = boards st" and "boardMap st' = boardMap st"
    and "sprintMap st' = sprintMap st" and "draws st' = n"
  shows "newTicket env cb st' e = newTicket env cb (st\<lparr>draws := n\<rparr>) e"
  using assms by (simp add: newTicket_def resolveBoard_def Let_def)

lemma pass1:
  assumes "forEach (processTicket env cb) es st = Inr st'"
  shows "boards st' = boards st \<and> boardMap st' = boardMap st \<and> sprints st' = sprints st \<and>
         sprintMap st' = sprintMap st \<and> draws st' = draws st + length es \<and>
         tickets st' = tickets st @
           map (\<lambda>i. newTicket env cb (st\<lparr>draws := draws st + i\<rparr>) (es ! i)) [0..<length es]"
  using assms
proof (induction es arbitrary: st' rule: rev_induct)
  case Nil
  then show ?case by simp
next
  case (snoc x xs)
  from snoc.prems obtain st1 where a: "forEach (processTicket env cb) xs st = Inr st1"
    and b: "processTicket env cb st1 x = Inr st'"
    by (rule forEach_snoc_Inr)
  note ih = snoc.IH [OF a]
  note f = processTicket_Inr [OF b]
  have nt: "newTicket env cb st1 x = newTicket env cb (st\<lparr>draws := draws st + length xs\<rparr>) x"
    using ih by (intro newTicket_cong) simp_all
  have "map (\<lambda>i. newTicket env cb (st\<lparr>draws := draws st + i\<rparr>) ((xs @ [x]) ! i)) [0..<length xs]
      = map (\<lambda>i. newTicket env cb (st\<lparr>draws := draws st + i\<rparr>) (xs ! i)) [0..<length xs]"
    by (rule map_cong) (simp_all add: nth_append)
  then show ?case
    using ih f(1-7) nt by simp
qed

lemma pass1_ticketMap_miss:
  assumes "forEach (processTicket env cb) es st = Inr st'"
    and "\<forall>j<length es. \<not> (truthy (getProp (snd (es ! j)) ''id'') \<and>
            id_key (draws st + j) (getProp (snd (es ! j)) ''id'') = k)"
  shows "ticketMap st' k = ticketMap st k"
  using assms
proof (induction es arbitrary: st' rule: rev_induct)
  case Nil
  then show ?case by simp
next
  case (snoc x xs)
  from snoc.prems(1) obtain st1 where a: "forEach (processTicket env cb) xs st = Inr st1"
    and b: "processTicket env cb st1 x = Inr st'"
    by (rule forEach_snoc_Inr)
  have d: "draws st1 = draws st + length xs" using pass1 [OF a] by simp
  have "\<forall>j<length xs. \<not> (truthy (getProp (snd (xs ! j)) ''id'') \<and>
            id_key (draws st + j) (getProp (snd (xs ! j)) ''id'') = k)"
  proof (intro allI impI)
    fix j assume "j < length xs"
    then show "\<not> (truthy (getProp (snd (xs ! j)) ''id'') \<and>
            id_key (draws st + j) (getProp (snd (xs ! j)) ''id'') = k)"
      using snoc.prems(2) [rule_format, of j] by (simp add: nth_append)
  qed
  then have ih: "ticketMap st1 k = ticketMap st k" by (rule snoc.IH [OF a])
  have last: "\<not> (truthy (getProp (snd x) ''id'') \<and>
            id_key (draws st + length xs) (getProp (snd x) ''id'') = k)"
    using snoc.prems(2) [rule_format, of "length xs"] by simp
  show ?case
    using processTicket_Inr(8) [OF b] ih last d by auto
qed

lemma pass1_ticketMap_hit:
  assumes "forEach (processTicket env cb) es st = Inr st'"
    and "j < length es" and "truthy (getProp (snd (es ! j)) ''id'')"
    and "k = id_key (draws st + j) (getProp (snd (es ! j)) ''id'')"
    and "\<forall>j'. j < j' \<and> j' < length es \<longrightarrow> \<not> (truthy (getProp (snd (es ! j')) ''id'') \<and>
            id_key (draws st + j') (getProp (snd (es ! j')) ''id'') = k)"
  shows "ticketMap st' k = Some (randomUUID env (draws st + j))"
  using assms
proof (induction es arbitrary: st' rule: rev_induct)
  case Nil
  then show ?case by simp
next
  case (snoc x xs)
  from snoc.prems(1) obtain st1 where a: "forEach (processTicket env cb) xs st = Inr st1"
    and b: "processTicket env cb st1 x = Inr st'"
    by (rule forEach_snoc_Inr)
  have d: "draws st1 = draws st + length xs" using pass1 [OF a] by simp
  show ?case
  proof (cases "j = length xs")
    case True
    then show ?thesis
      using processTicket_Inr(8) [OF b] snoc.prems(3,4) d by simp
  next
    case False
    then have j: "j < length xs" using snoc.prems(2) by simp
    have "\<forall>j'. j < j' \<and> j' < length xs \<longrightarrow> \<not> (truthy (getProp (snd (xs ! j')) ''id'') \<and>
            id_key (draws st + j') (getProp (snd (xs ! j')) ''id'') = k)"
    proof (intro allI impI)
      fix j' assume "j < j' \<and> j' < length xs"
      then show "\<not> (truthy (getProp (snd (xs ! j')) ''id'') \<and>
            id_key (draws st + j') (getProp (snd (xs ! j')) ''id'') = k)"
        using snoc.prems(5) [rule_format, of j'] by (simp add: nth_append)
    qed
    then have ih: "ticketMap st1 k = Some (randomUUID env (draws st + j))"
      using snoc.IH [OF a j] snoc.prems(3,4) j by (simp add: nth_append)
    have last: "\<not> (truthy (getProp (snd x) ''id'') \<and>
            id_key (draws st + length xs) (getProp (snd x) ''id'') = k)"
      using snoc.prems(5) [rule_format, of "length xs"] j by simp
    show ?thesis
      using processTicket_Inr(8) [OF b] ih last d by auto
  qed
qed

subsection \<open>The two ways the function returns\<close>

lemma run_cases [consumes 1, case_names flat tickets]:
  assumes "parseJsonImport env jsonString cb = Inr r"
  obtains (flat) data st1 v where "JSON_parse env jsonString = Some data" and "\<not> nullish data"
      and "boardStage env data = Inr st1" and "data_tickets st1 = NotArray v" and "r = finish st1"
  | (tickets) data st1 es st2 where "JSON_parse env jsonString = Some data" and "\<not> nullish data"
      and "boardStage env data = Inr st1" and "data_tickets st1 = Entries es"
      and "forEach (processTicket env cb) es st1 = Inr st2"
      and "r = finish (st2\<lparr>tickets := map (linkParent (ticketMap st2)) (tickets st2)\<rparr>)"
  using assms
  by (auto simp: parseJsonImport_def importData_def ticketStage_def
           split: option.splits if_splits sum.splits worklist.splits)

lemma linkParent_fields:
  shows "t_id (linkParent tm t) = t_id t" and "t_board_id (linkParent tm t) = t_board_id t"
    and "t_sprint_id (linkParent tm t) = t_sprint_id t"
    and "t_story_points (linkParent tm t) = t_story_points t"
    and "t_title (linkParent tm t) = t_title t"
    and "t_parent_id (linkParent tm t) =
           (case lookup tm (ref_key (t_parent_id t)) of Some i \<Rightarrow> JStr i | None \<Rightarrow> JNull)"
  by (auto simp: linkParent_def split: option.splits)

subsection \<open>The identifiers are the draws\<close>

lemma ids_drawn_step:
  assumes "ids_drawn env st" and "draws st' = Suc (draws st)"
    and "set (all_ids st') = insert (randomUUID env (draws st)) (set (all_ids st))"
    and "length (all_ids st') = Suc (length (all_ids st))"
  shows "ids_drawn env st'"
  using assms by (simp add: ids_drawn_def lessThan_Suc)

lemma processSprint_ids:
  assumes "processSprint env newId st s = Inr st'" and "ids_drawn env st"
  shows "ids_drawn env st'"
proof -
  note f = processSprint_Inr [OF assms(1)]
  from f(7) obtain sp where "sprints st' = sprints st @ [sp]" "s_id sp = randomUUID env (draws st)"
    by blast
  then show ?thesis
    using f(1,3,6) by (intro ids_drawn_step [OF assms(2)]) (auto simp: all_ids_def)
qed

lemma tagTicket_ids:
  assumes "tagTicket k st t = Inr st'" and "ids_drawn env st"
  shows "ids_drawn env st'"
  using assms(2) tagTicket_Inr [OF assms(1)] by (simp add: ids_drawn_def all_ids_def)

lemma pushBoard_ids:
  assumes "ids_drawn env st"
  shows "ids_drawn env (pushBoard env st b)"
proof -
  note f = pushBoard_fields [of env st b]
  from f(7) obtain nb where "boards (pushBoard env st b) = boards st @ [nb]"
    "b_id nb = randomUUID env (draws st)"
    by blast
  then show ?thesis
    using f(1,3,6) by (intro ids_drawn_step [OF assms]) (auto simp: all_ids_def)
qed

lemma processBoard_ids:
  assumes "processBoard env st b = Inr st'" and "ids_drawn env st"
  shows "ids_drawn env st'"
proof -
  from assms(1) obtain st2 where
    a: "forEach_array (processSprint env (randomUUID env (draws st))) (getProp b ''sprints'')
           (pushBoard env st b) = Inr st2"
    and b: "forEach_array (tagTicket (id_key (draws st) (getProp b ''id''))) (getProp b ''tickets'') st2
           = Inr st'"
    by (rule processBoard_Inr)
  have "ids_drawn env st2"
    using a pushBoard_ids [OF assms(2)]
    by (rule forEach_array_invariant) (use processSprint_ids in blast)
  with b show ?thesis
    by (rule forEach_array_invariant) (use tagTicket_ids in blast)
qed

lemma boardStage_ids:
  assumes "boardStage env data = Inr st"
  shows "ids_drawn env st"
proof -
  have "ids_drawn env (init_state data)"
    by (simp add: ids_drawn_def all_ids_def init_state_def)
  with assms [unfolded boardStage_def] show ?thesis
    by (rule forEach_array_invariant) (use processBoard_ids in blast)
qed

lemma processTicket_ids:
  assumes "processTicket env cb st e = Inr st'" and "ids_drawn env st"
  shows "ids_drawn env st'"
  using processTicket_Inr(1,3,6,7) [OF assms(1)]
  by (intro ids_drawn_step [OF assms(2)]) (auto simp: all_ids_def newTicket_def Let_def)

lemma pass1_ids:
  assumes "forEach (processTicket env cb) es st = Inr st'" and "ids_drawn env st"
  shows "ids_drawn env st'"
  using assms by (rule forEach_invariant) (use processTicket_ids in blast)

lemma result_ids_finish: "result_ids (finish st) = all_ids st"
  by (simp add: result_ids_def finish_def all_ids_def)

lemma all_ids_linked:
  "all_ids (st\<lparr>tickets := map (linkParent tm) (tickets st)\<rparr>) = all_ids st"
  by (simp add: all_ids_def linkParent_fields o_def)

lemma draws_finish:
  "draws st = length (all_ids st) \<Longrightarrow>
   draws st = n_boards (stats (finish st)) + n_sprints (stats (finish st)) + n_tickets (stats (finish st))"
  by (simp add: finish_def all_ids_def)

text \<open>The identifiers of a result are the draws of the call, one for each entity.\<close>

lemma result_ids_drawn:
  assumes "parseJsonImport env jsonString cb = Inr r"
  shows "set (result_ids r) = randomUUID env ` {..<length (result_ids r)}"
  using assms
proof (cases rule: run_cases)
  case (flat data st1 v)
  then show ?thesis
    using boardStage_ids [of env data st1] by (simp add: result_ids_finish ids_drawn_def)
next
  case (tickets data st1 es st2)
  then show ?thesis
    using pass1_ids [OF tickets(5) boardStage_ids [OF tickets(3)]]
    by (simp add: result_ids_finish all_ids_linked ids_drawn_def)
qed

subsection \<open>References stay inside the batch\<close>

lemma t_id_newTicket: "t_id (newTicket env cb st e) = randomUUID env (draws st)"
  by (simp add: newTicket_def Let_def)

lemma processTicket_closed:
  assumes "processTicket env cb st e = Inr st'" and "maps_closed st \<and> tickets_closed cb st"
  shows "maps_closed st' \<and> tickets_closed cb st'"
proof -
  note f = processTicket_Inr [OF assms(1)]
  have m: "maps_closed st'"
    using assms(2) f(1-4) by (simp add: maps_closed_def)
  have tc: "ticket_closed cb st' = ticket_closed cb st"
    using f(1,3) by (intro ext) (simp add: ticket_closed_def)
  have "ticketMap st' k = Some v \<Longrightarrow> v \<in> t_id ` set (tickets st')" for k v
    using assms(2) f(7,8) by (auto simp: tickets_closed_def t_id_newTicket split: if_splits)
  moreover have "list_all (ticket_closed cb st') (tickets st')"
    using assms(2) newTicket_closed [of st cb env e] f(7) tc
    by (simp add: tickets_closed_def)
  ultimately show ?thesis using m by (simp add: tickets_closed_def)
qed

lemma stage2_closed:
  assumes "boardStage env data = Inr st1" and "forEach (processTicket env cb) es st1 = Inr st2"
  shows "maps_closed st2 \<and> tickets_closed cb st2"
proof -
  have "maps_closed st1 \<and> tickets_closed cb st1"
    using boardStage_closed [OF assms(1)] by (simp add: tickets_closed_def no_tickets_def)
  with assms(2) show ?thesis
    by (rule forEach_invariant) (use processTicket_closed in blast)
qed

text \<open>
  C2. Referential closure. In the result of a successful call, the \<open>parent_id\<close> of every
  ticket is \<open>null\<close> or the \<open>id\<close> of a ticket of the same result, and its \<open>sprint_id\<close> is
  \<open>null\<close> or the \<open>id\<close> of a sprint of the same result; that identifier is a draw of the
  generator, not a token of the document.
\<close>

theorem referential_closure:
  assumes "parseJsonImport env jsonString currentBoardId = Inr r"
  shows "\<forall>t\<in>set (tickets r).
           (t_parent_id t = JNull \<or>
            (\<exists>p\<in>set (tickets r). t_parent_id t = JStr (t_id p) \<and>
               t_id p \<in> range (randomUUID env))) \<and>
           (t_sprint_id t = None \<or>
            (\<exists>sp\<in>set (sprints r). t_sprint_id t = Some (s_id sp) \<and>
               s_id sp \<in> range (randomUUID env)))"
  using assms
proof (cases rule: run_cases)
  case (flat data st1 v)
  then show ?thesis
    using boardStage_closed [of env data st1] by (simp add: finish_def no_tickets_def)
next
  case (tickets data st1 es st2)
  let ?tm = "ticketMap st2"
  have c: "maps_closed st2 \<and> tickets_closed currentBoardId st2"
    using tickets(3,5) by (rule stage2_closed)
  have ts: "tickets r = map (linkParent ?tm) (tickets st2)" and ss: "sprints r = sprints st2"
    using tickets(6) by (simp_all add: finish_def)
  have drawn: "set (result_ids r) \<subseteq> range (randomUUID env)"
    using result_ids_drawn [OF assms] by auto
  have tdrawn: "t_id p \<in> range (randomUUID env)" if "p \<in> set (tickets r)" for p
    using drawn that by (auto simp: result_ids_def)
  have sdrawn: "s_id sp \<in> range (randomUUID env)" if "sp \<in> set (sprints r)" for sp
    using drawn that by (auto simp: result_ids_def)
  show ?thesis
  proof
    fix t assume "t \<in> set (tickets r)"
    then obtain t0 where t0: "t0 \<in> set (tickets st2)" and t: "t = linkParent ?tm t0"
      using ts by auto
    have par: "t_parent_id t = JNull \<or>
            (\<exists>p\<in>set (tickets r). t_parent_id t = JStr (t_id p) \<and>
               t_id p \<in> range (randomUUID env))"
    proof (cases "lookup ?tm (ref_key (t_parent_id t0))")
      case None
      then show ?thesis using t by (simp add: linkParent_fields)
    next
      case (Some i)
      then have "?tm (ref_key (t_parent_id t0)) = Some i"
        by (rule lookup_Some)
      then have "i \<in> t_id ` set (tickets st2)"
        using c unfolding tickets_closed_def by blast
      then obtain p0 where "p0 \<in> set (tickets st2)" and "i = t_id p0" by auto
      then have "linkParent ?tm p0 \<in> set (tickets r)" and "i = t_id (linkParent ?tm p0)"
        using ts by (simp_all add: linkParent_fields)
      moreover have "t_parent_id t = JStr i"
        using t Some by (simp add: linkParent_fields)
      ultimately show ?thesis using tdrawn by blast
    qed
    have "ticket_closed currentBoardId st2 t0"
      using c t0 by (simp add: tickets_closed_def list_all_iff)
    then have "t_sprint_id t = None \<or> (\<exists>sp\<in>set (sprints r). t_sprint_id t = Some (s_id sp))"
      using t ss by (auto simp: ticket_closed_def linkParent_fields)
    then have spr: "t_sprint_id t = None \<or>
            (\<exists>sp\<in>set (sprints r). t_sprint_id t = Some (s_id sp) \<and>
               s_id sp \<in> range (randomUUID env))"
      using sdrawn by blast
    from par spr show "(t_parent_id t = JNull \<or>
            (\<exists>p\<in>set (tickets r). t_parent_id t = JStr (t_id p) \<and>
               t_id p \<in> range (randomUUID env))) \<and>
           (t_sprint_id t = None \<or>
            (\<exists>sp\<in>set (sprints r). t_sprint_id t = Some (s_id sp) \<and>
               s_id sp \<in> range (randomUUID env)))"
      by simp
  qed
qed

text \<open>
  C5, as amended. When the result holds at least one board, the \<open>board_id\<close> of every
  ticket is the \<open>id\<close> of a board of the same result, or it is the \<open>currentBoardId\<close>
  argument, which then is not empty.
\<close>

theorem board_in_batch_or_fallback:
  assumes "parseJsonImport env jsonString currentBoardId = Inr r" and "boards r \<noteq> []"
  shows "\<forall>t\<in>set (tickets r).
           (\<exists>b\<in>set (boards r). t_board_id t = Some (b_id b)) \<or>
           (truthy_str currentBoardId \<and> t_board_id t = currentBoardId)"
  using assms(1)
proof (cases rule: run_cases)
  case (flat data st1 v)
  then show ?thesis
    using boardStage_closed [of env data st1] by (simp add: finish_def no_tickets_def)
next
  case (tickets data st1 es st2)
  have c: "maps_closed st2 \<and> tickets_closed currentBoardId st2"
    using tickets(3,5) by (rule stage2_closed)
  have ts: "tickets r = map (linkParent (ticketMap st2)) (tickets st2)" and bs: "boards r = boards st2"
    using tickets(6) by (simp_all add: finish_def)
  show ?thesis
  proof
    fix t assume "t \<in> set (tickets r)"
    then obtain t0 where t0: "t0 \<in> set (tickets st2)" and t: "t = linkParent (ticketMap st2) t0"
      using ts by auto
    have "ticket_closed currentBoardId st2 t0"
      using c t0 by (simp add: tickets_closed_def list_all_iff)
    then show "(\<exists>b\<in>set (boards r). t_board_id t = Some (b_id b)) \<or>
           (truthy_str currentBoardId \<and> t_board_id t = currentBoardId)"
      using t bs assms(2) by (auto simp: ticket_closed_def linkParent_fields)
  qed
qed

subsection \<open>Parent linking\<close>

lemma id_key_eq_ref_key:
  "truthy v \<and> id_key n v = ref_key p \<longleftrightarrow> truthy p \<and> \<not> is_object p \<and> v = p"
  by (auto simp: id_key_def ref_key_def)

lemma ticket_nth:
  assumes "boardStage env data = Inr st1" and "forEach (processTicket env cb) es st1 = Inr st2"
    and "r = finish (st2\<lparr>tickets := map (linkParent (ticketMap st2)) (tickets st2)\<rparr>)"
  shows "length (tickets r) = length es"
    and "i < length es \<Longrightarrow>
         tickets r ! i = linkParent (ticketMap st2)
                           (newTicket env cb (st1\<lparr>draws := draws st1 + i\<rparr>) (es ! i))"
    and "boards r = boards st1" and "sprints r = sprints st1"
proof -
  have nt: "tickets st1 = []"
    using boardStage_closed [OF assms(1)] by (simp add: no_tickets_def)
  note p = pass1 [OF assms(2)]
  show "length (tickets r) = length es"
    using p nt assms(3) by (simp add: finish_def)
  show "i < length es \<Longrightarrow>
         tickets r ! i = linkParent (ticketMap st2)
                           (newTicket env cb (st1\<lparr>draws := draws st1 + i\<rparr>) (es ! i))"
    using p nt assms(3) by (simp add: finish_def)
  show "boards r = boards st1" and "sprints r = sprints st1"
    using p assms(3) by (simp_all add: finish_def)
qed

text \<open>
  C4. Parent linking. \<open>es\<close> is the working list of the first pass. The result has one
  ticket for each entry, in order. When the raw \<open>parent_id\<close> of entry \<open>i\<close> is the token of
  entry \<open>j\<close>, wherever \<open>j\<close> stands in the list (before or after \<open>i\<close>; of several entries
  with that token the last one holds the map), the \<open>parent_id\<close> of ticket \<open>i\<close> is the new
  identifier of ticket \<open>j\<close>. When no entry carries that token, it is \<open>null\<close>.
\<close>

theorem parent_linking:
  assumes "JSON_parse env jsonString = Some data"
    and "boardStage env data = Inr st1"
    and "data_tickets st1 = Entries es"
    and "parseJsonImport env jsonString currentBoardId = Inr r"
  shows "length (tickets r) = length es \<and>
         (\<forall>i<length es. \<forall>j<length es.
            carries_token (snd (es ! j)) (getProp (snd (es ! i)) ''parent_id'') \<and>
            (\<forall>j'. j < j' \<and> j' < length es \<longrightarrow>
               \<not> carries_token (snd (es ! j')) (getProp (snd (es ! i)) ''parent_id''))
            \<longrightarrow> t_parent_id (tickets r ! i) = JStr (t_id (tickets r ! j)) \<and>
                t_id (tickets r ! j) = randomUUID env (draws st1 + j)) \<and>
         (\<forall>i<length es.
            (\<forall>j<length es. \<not> carries_token (snd (es ! j)) (getProp (snd (es ! i)) ''parent_id''))
            \<longrightarrow> t_parent_id (tickets r ! i) = JNull)"
  using assms(4)
proof (cases rule: run_cases)
  case (flat data' st1' v)
  then show ?thesis using assms(1-3) by simp
next
  case (tickets data' st1' es' st2)
  then have run: "forEach (processTicket env currentBoardId) es st1 = Inr st2"
    and r: "r = finish (st2\<lparr>tickets := map (linkParent (ticketMap st2)) (tickets st2)\<rparr>)"
    using assms(1-3) by simp_all
  note nth = ticket_nth [OF assms(2) run r]
  have empty: "ticketMap st1 = Map.empty"
    using boardStage_closed [OF assms(2)] by (simp add: no_tickets_def)
  have id_at: "t_id (tickets r ! j) = randomUUID env (draws st1 + j)" if "j < length es" for j
    using nth(2) [OF that] by (simp add: linkParent_fields t_id_newTicket)
  have parent_at: "t_parent_id (tickets r ! i) =
      (case lookup (ticketMap st2) (ref_key (orElse (getProp (snd (es ! i)) ''parent_id'') JNull)) of
         Some x \<Rightarrow> JStr x | None \<Rightarrow> JNull)" if "i < length es" for i
    using nth(2) [OF that] by (simp add: linkParent_fields newTicket_def Let_def)
  have hit: "t_parent_id (tickets r ! i) = JStr (t_id (tickets r ! j)) \<and>
             t_id (tickets r ! j) = randomUUID env (draws st1 + j)"
    if i: "i < length es" and j: "j < length es"
      and c: "carries_token (snd (es ! j)) (getProp (snd (es ! i)) ''parent_id'')"
      and l: "\<forall>j'. j < j' \<and> j' < length es \<longrightarrow>
               \<not> carries_token (snd (es ! j')) (getProp (snd (es ! i)) ''parent_id'')"
    for i j
  proof -
    let ?p = "getProp (snd (es ! i)) ''parent_id''"
    have tp: "truthy ?p" and np: "\<not> is_object ?p" and eq: "getProp (snd (es ! j)) ''id'' = ?p"
      using c by (simp_all add: carries_token_def)
    have k: "ref_key ?p = id_key (draws st1 + j) (getProp (snd (es ! j)) ''id'')"
      using np eq by (simp add: id_key_def ref_key_def)
    have later: "\<forall>j'. j < j' \<and> j' < length es \<longrightarrow> \<not> (truthy (getProp (snd (es ! j')) ''id'') \<and>
            id_key (draws st1 + j') (getProp (snd (es ! j')) ''id'') = ref_key ?p)"
      using l by (simp add: id_key_eq_ref_key carries_token_def)
    have "ticketMap st2 (ref_key ?p) = Some (randomUUID env (draws st1 + j))"
      using run j _ k later by (rule pass1_ticketMap_hit) (simp add: eq tp)
    moreover have "truthy_key (ref_key ?p)"
      using tp np by (simp add: ref_key_def)
    ultimately show ?thesis
      using parent_at [OF i] id_at [OF j] tp by (simp add: lookup_def orElse_def)
  qed
  have miss: "t_parent_id (tickets r ! i) = JNull"
    if i: "i < length es"
      and n: "\<forall>j<length es. \<not> carries_token (snd (es ! j)) (getProp (snd (es ! i)) ''parent_id'')"
    for i
  proof -
    let ?p = "getProp (snd (es ! i)) ''parent_id''"
    have "\<forall>j<length es. \<not> (truthy (getProp (snd (es ! j)) ''id'') \<and>
            id_key (draws st1 + j) (getProp (snd (es ! j)) ''id'') = ref_key ?p)"
      using n by (simp add: id_key_eq_ref_key carries_token_def)
    with run have "ticketMap st2 (ref_key ?p) = ticketMap st1 (ref_key ?p)"
      by (rule pass1_ticketMap_miss)
    then have "lookup (ticketMap st2) (ref_key ?p) = None"
      using empty by (simp add: lookup_def)
    moreover have "lookup (ticketMap st2) (ref_key JNull) = None"
      by (simp add: lookup_def ref_key_def)
    ultimately show ?thesis
      using parent_at [OF i] by (simp add: orElse_def)
  qed
  show ?thesis
    using nth(1) hit miss by blast
qed

subsection \<open>The board and the story points of a ticket\<close>

lemma run_tickets:
  assumes "JSON_parse env jsonString = Some data"
    and "boardStage env data = Inr st1"
    and "data_tickets st1 = Entries es"
    and "parseJsonImport env jsonString cb = Inr r"
  obtains st2 where "forEach (processTicket env cb) es st1 = Inr st2"
    and "r = finish (st2\<lparr>tickets := map (linkParent (ticketMap st2)) (tickets st2)\<rparr>)"
  using assms(4)
proof (cases rule: run_cases)
  case (flat data' st1' v)
  then show ?thesis using assms(1-3) by simp
next
  case (tickets data' st1' es' st2)
  then show ?thesis using assms(1-3) that by simp
qed

lemma resolveBoard_amended:
  assumes "fst e = None \<longrightarrow> getProp (snd e) ''_temp_board_id'' = JUndefined"
  shows "resolveBoard cb st e = amended_board_priority cb (boardMap st) (boards st) e"
proof (cases e)
  case (Pair tag t)
  show ?thesis
  proof (cases tag)
    case None
    then have "lookup (boardMap st) (temp_board_id e) = None"
      using assms Pair by (simp add: lookup_def ref_key_def)
    then show ?thesis
      using Pair None
      by (auto simp: resolveBoard_def amended_board_priority_def split: option.splits list.splits)
  next
    case (Some k)
    then show ?thesis
      using Pair
      by (auto simp: resolveBoard_def amended_board_priority_def split: option.splits list.splits)
  qed
qed

text \<open>
  C3, as amended. \<open>es\<close> is the working list of the first pass. For every entry that the
  board stage tagged, and for every entry of the document's own list that has no
  \<open>_temp_board_id\<close> property, the \<open>board_id\<close> of its ticket follows the priority order
  with step (c) taken only for a fallback that is not empty.
\<close>

theorem board_priority:
  assumes "JSON_parse env jsonString = Some data"
    and "boardStage env data = Inr st1"
    and "data_tickets st1 = Entries es"
    and "parseJsonImport env jsonString currentBoardId = Inr r"
  shows "\<forall>i<length es.
           (fst (es ! i) = None \<longrightarrow> getProp (snd (es ! i)) ''_temp_board_id'' = JUndefined) \<longrightarrow>
           t_board_id (tickets r ! i) =
             amended_board_priority currentBoardId (boardMap st1) (boards r) (es ! i)"
proof -
  from assms obtain st2 where run: "forEach (processTicket env currentBoardId) es st1 = Inr st2"
    and r: "r = finish (st2\<lparr>tickets := map (linkParent (ticketMap st2)) (tickets st2)\<rparr>)"
    by (rule run_tickets)
  note nth = ticket_nth [OF assms(2) run r]
  show ?thesis
  proof (intro allI impI)
    fix i
    assume i: "i < length es"
      and h: "fst (es ! i) = None \<longrightarrow> getProp (snd (es ! i)) ''_temp_board_id'' = JUndefined"
    have "t_board_id (tickets r ! i) = resolveBoard currentBoardId (st1\<lparr>draws := draws st1 + i\<rparr>) (es ! i)"
      using nth(2) [OF i] by (simp add: linkParent_fields newTicket_def Let_def)
    also have "\<dots> = amended_board_priority currentBoardId (boardMap st1) (boards st1) (es ! i)"
      using resolveBoard_amended [OF h, of currentBoardId "st1\<lparr>draws := draws st1 + i\<rparr>"] by simp
    finally show "t_board_id (tickets r ! i) =
             amended_board_priority currentBoardId (boardMap st1) (boards r) (es ! i)"
      using nth(3) by simp
  qed
qed

subsection \<open>What \<open>parseInt\<close> reads, and the Number it gives\<close>

lemma digit_not_space: "is_digit c \<Longrightarrow> \<not> is_space c \<and> c \<noteq> CHR ''+'' \<and> c \<noteq> CHR ''-''"
  by (auto simp: is_digit_def is_space_def)

lemma sign_not_space: "\<not> is_space CHR ''+''" "\<not> is_space CHR ''-''"
  by (simp_all add: is_space_def)

lemma sign_not_digit: "\<not> is_digit CHR ''+''" "\<not> is_digit CHR ''-''"
  by (simp_all add: is_digit_def)

lemma dropWhile_spaces:
  assumes "list_all is_space ws" and "xs = [] \<or> \<not> is_space (hd xs)"
  shows "dropWhile is_space (ws @ xs) = xs"
proof -
  have "dropWhile is_space (ws @ xs) = dropWhile is_space xs"
    using assms(1) by (intro dropWhile_append2) (simp add: list_all_iff)
  also have "\<dots> = xs"
    using assms(2) by (cases xs) auto
  finally show ?thesis .
qed

lemma takeWhile_digits:
  assumes "list_all is_digit ds" and "rest = [] \<or> \<not> is_digit (hd rest)"
  shows "takeWhile is_digit (ds @ rest) = ds"
proof -
  have "takeWhile is_digit (ds @ rest) = ds @ takeWhile is_digit rest"
    using assms(1) by (intro takeWhile_append2) (simp add: list_all_iff)
  also have "takeWhile is_digit rest = []"
    using assms(2) by (cases rest) auto
  finally show ?thesis by simp
qed

lemma parseInt_integer:
  assumes "reads_integer s neg ds"
  shows "parseInt s = Some (to_Number neg (digits_val ds))"
proof -
  from assms obtain ws sg rest where s: "s = ws @ sg @ ds @ rest" and ws: "list_all is_space ws"
    and sg: "(sg, neg) \<in> set [('''', False), (''+'', False), (''-'', True)]"
    and ds: "ds \<noteq> []" "list_all is_digit ds" and rest: "rest = [] \<or> \<not> is_digit (hd rest)"
    unfolding reads_integer_def by blast
  obtain d ds' where d: "ds = d # ds'" using ds(1) by (cases ds) auto
  then have dd: "is_digit d" using ds(2) by simp
  note tw = takeWhile_digits [OF ds(2) rest]
  consider "sg = []" "\<not> neg" | "sg = ''+''" "\<not> neg" | "sg = ''-''" "neg"
    using sg by auto
  then show ?thesis
  proof cases
    case 1
    have "dropWhile is_space s = ds @ rest"
      unfolding s 1 using ws digit_not_space [OF dd] d dropWhile_spaces [of ws "ds @ rest"]
      by simp
    then show ?thesis
      using 1 d digit_not_space [OF dd] tw ds(1) by (simp add: parseInt_def Let_def)
  next
    case 2
    have "dropWhile is_space s = CHR ''+'' # ds @ rest"
      unfolding s 2 using ws sign_not_space dropWhile_spaces [of ws "CHR ''+'' # ds @ rest"] by simp
    then show ?thesis
      using 2 tw ds(1) by (simp add: parseInt_def Let_def)
  next
    case 3
    have "dropWhile is_space s = CHR ''-'' # ds @ rest"
      unfolding s 3 using ws sign_not_space dropWhile_spaces [of ws "CHR ''-'' # ds @ rest"] by simp
    then show ?thesis
      using 3 tw ds(1) by (simp add: parseInt_def Let_def)
  qed
qed

lemma parseInt_no_integer:
  assumes "reads_no_integer s"
  shows "parseInt s = None"
proof -
  from assms obtain ws sg rest where s: "s = ws @ sg @ rest" and ws: "list_all is_space ws"
    and sg: "sg \<in> set ['''', ''+'', ''-'']"
    and rest: "rest = [] \<or> \<not> is_digit (hd rest)"
    and bare: "sg = [] \<longrightarrow> rest = [] \<or> (\<not> is_space (hd rest) \<and> hd rest \<notin> set ''+-'')"
    unfolding reads_no_integer_def by blast
  have tw: "takeWhile is_digit rest = []"
    using rest by (cases rest) auto
  consider "sg = []" | "sg = ''+''" | "sg = ''-''"
    using sg by auto
  then show ?thesis
  proof cases
    case 1
    have dw: "dropWhile is_space s = rest"
      unfolding s 1 using ws bare 1 dropWhile_spaces [of ws rest] by auto
    show ?thesis
      unfolding parseInt_def Let_def dw using bare 1 tw by (cases rest) auto
  next
    case 2
    have "dropWhile is_space s = CHR ''+'' # rest"
      unfolding s 2 using ws sign_not_space dropWhile_spaces [of ws "CHR ''+'' # rest"] by simp
    then show ?thesis
      using tw by (simp add: parseInt_def Let_def)
  next
    case 3
    have "dropWhile is_space s = CHR ''-'' # rest"
      unfolding s 3 using ws sign_not_space dropWhile_spaces [of ws "CHR ''-'' # rest"] by simp
    then show ?thesis
      using tw by (simp add: parseInt_def Let_def)
  qed
qed

lemma reads_exclusive: "reads_no_integer s \<Longrightarrow> \<not> reads_integer s neg ds"
  using parseInt_integer [of s neg ds] parseInt_no_integer [of s] by auto







lemma to_double_multiple: "2 ^ ulp_exp m dvd to_double m"
  by (simp add: to_double_def Let_def)

lemma to_double_nearest: "2 * (to_double m - m) \<le> 2 ^ ulp_exp m \<and> 2 * (m - to_double m) \<le> 2 ^ ulp_exp m"
proof -
  define e where "e = ulp_exp m"
  define q where "q = m div 2 ^ e"
  define r where "r = m mod 2 ^ e"
  define x where "x = q * 2 ^ e"
  define u :: nat where "u = 2 ^ e"
  have m: "m = x + r" by (simp only: x_def q_def r_def div_mult_mod_eq)
  have r: "r < u" by (simp add: r_def u_def)
  have "2 * (to_double m - m) \<le> u \<and> 2 * (m - to_double m) \<le> u"
  proof (cases "2 * r < 2 ^ e \<or> (2 * r = 2 ^ e \<and> even q)")
    case True
    then have "to_double m = x"
      by (simp add: to_double_def Let_def e_def [symmetric] q_def [symmetric] r_def [symmetric] x_def)
    moreover have "2 * r \<le> u" using True by (auto simp: u_def)
    ultimately show ?thesis using m by arith
  next
    case False
    then have "to_double m = x + u"
      by (simp add: to_double_def Let_def e_def [symmetric] q_def [symmetric] r_def [symmetric] x_def u_def)
    moreover have "u \<le> 2 * r" using False by (auto simp: u_def)
    ultimately show ?thesis using m r by arith
  qed
  then show ?thesis unfolding u_def e_def .
qed





subsection \<open>The working list\<close>

lemma tagTicket_entries:
  assumes "tagTicket k st t = Inr st'" and "data_tickets st = Entries es"
  shows "data_tickets st' = Entries (es @ [(Some k, t)])"
  using assms by (auto simp: tagTicket_def push_ticket_def split: if_splits)

lemma forEach_tagTicket_entries:
  assumes "forEach (tagTicket k) ts st = Inr st'" and "data_tickets st = Entries es"
  shows "data_tickets st' = Entries (es @ map (Pair (Some k)) ts)"
  using assms
proof (induction ts arbitrary: st es)
  case Nil
  then show ?case by simp
next
  case (Cons t ts)
  from Cons.prems(1) obtain s1 where a: "tagTicket k st t = Inr s1"
    and b: "forEach (tagTicket k) ts s1 = Inr st'"
    by (auto split: sum.splits)
  show ?case
    using Cons.IH [OF b tagTicket_entries [OF a Cons.prems(2)]] by simp
qed

lemma forEach_processSprint_worklist:
  assumes "forEach_array (processSprint env newId) v st = Inr st'"
  shows "data_tickets st' = data_tickets st"
  using assms
  by (rule forEach_array_invariant [where P = "\<lambda>s. data_tickets s = data_tickets st"])
     (simp_all add: processSprint_Inr)

lemma processBoard_entries:
  assumes "processBoard env st b = Inr st'" and "data_tickets st = Entries es"
  shows "\<exists>k. data_tickets st' = Entries (es @ map (Pair (Some k)) (nested_tickets b))"
proof -
  from assms(1) obtain st2 where
    a: "forEach_array (processSprint env (randomUUID env (draws st))) (getProp b ''sprints'')
           (pushBoard env st b) = Inr st2"
    and b: "forEach_array (tagTicket (id_key (draws st) (getProp b ''id''))) (getProp b ''tickets'') st2
           = Inr st'"
    by (rule processBoard_Inr)
  have w: "data_tickets st2 = Entries es"
    using forEach_processSprint_worklist [OF a] assms(2) by (simp add: pushBoard_fields)
  show ?thesis
  proof (cases "getProp b ''tickets''")
    case (JArr ts)
    then show ?thesis
      using b forEach_tagTicket_entries [OF _ w, of _ ts st'] by (auto simp: nested_tickets_def)
  qed (use b w in \<open>auto simp: nested_tickets_def\<close>)
qed

lemma forEach_processBoard_entries:
  assumes "forEach (processBoard env) bs st = Inr st'" and "data_tickets st = Entries es"
  shows "\<exists>es'. data_tickets st' = Entries (es @ es') \<and>
           map snd es' = concat (map nested_tickets bs) \<and> list_all tagged es'"
  using assms
proof (induction bs arbitrary: st es)
  case Nil
  then show ?case by simp
next
  case (Cons b bs)
  from Cons.prems(1) obtain s1 where a: "processBoard env st b = Inr s1"
    and b: "forEach (processBoard env) bs s1 = Inr st'"
    by (auto split: sum.splits)
  from processBoard_entries [OF a Cons.prems(2)] obtain k
    where k: "data_tickets s1 = Entries (es @ map (Pair (Some k)) (nested_tickets b))"
    by blast
  from Cons.IH [OF b k] obtain es' where
    es': "data_tickets st' = Entries ((es @ map (Pair (Some k)) (nested_tickets b)) @ es')"
      "map snd es' = concat (map nested_tickets bs)" "list_all tagged es'"
    by blast
  let ?new = "map (Pair (Some k)) (nested_tickets b) @ es'"
  have "data_tickets st' = Entries (es @ ?new)" using es'(1) by simp
  moreover have "map snd ?new = concat (map nested_tickets (b # bs))"
    using es'(2) by (simp add: o_def)
  moreover have "list_all tagged ?new"
    using es'(3) by (auto simp: list_all_iff tagged_def)
  ultimately show ?case by blast
qed

text \<open>
  C8, as amended. When the document has both a \<open>boards\<close> array and a top-level \<open>tickets\<close>
  array, the working list is the top-level entries, untouched, followed by the tickets
  nested under the boards, tagged, board by board; the tickets of the result follow that
  order, each with the next draw of the generator.
\<close>

theorem working_list_order:
  assumes "JSON_parse env jsonString = Some data"
    and "getProp data ''boards'' = JArr bs"
    and "getProp data ''tickets'' = JArr loose"
    and "parseJsonImport env jsonString currentBoardId = Inr r"
  shows "\<exists>st1 nested.
           boardStage env data = Inr st1 \<and>
           data_tickets st1 = Entries (map (Pair None) loose @ nested) \<and>
           map snd nested = concat (map nested_tickets bs) \<and>
           list_all tagged nested \<and>
           map t_id (tickets r) =
             map (\<lambda>i. randomUUID env (draws st1 + i)) [0..<length loose + length nested] \<and>
           map t_title (tickets r) =
             map (\<lambda>t. orElse (getProp t ''title'') (JStr ''Untitled Ticket''))
               (loose @ concat (map nested_tickets bs))"
  using assms(4)
proof (cases rule: run_cases)
  case (flat data' st1 v)
  then have "forEach (processBoard env) bs (init_state data) = Inr st1"
    using assms(1,2) by (simp add: boardStage_def)
  moreover have "data_tickets (init_state data) = Entries (map (Pair None) loose)"
    using assms(3) by (simp add: init_state_def wrap_tickets_def)
  ultimately show ?thesis
    using forEach_processBoard_entries flat(4) by fastforce
next
  case (tickets data' st1 es st2)
  then have bs: "forEach (processBoard env) bs (init_state data) = Inr st1"
    and stage: "boardStage env data = Inr st1"
    using assms(1,2) by (simp_all add: boardStage_def)
  have "data_tickets (init_state data) = Entries (map (Pair None) loose)"
    using assms(3) by (simp add: init_state_def wrap_tickets_def)
  from forEach_processBoard_entries [OF bs this] obtain nested where
    n: "data_tickets st1 = Entries (map (Pair None) loose @ nested)"
      "map snd nested = concat (map nested_tickets bs)" "list_all tagged nested"
    by blast
  then have es: "es = map (Pair None) loose @ nested"
    using tickets(4) by simp
  note nth = ticket_nth [OF stage tickets(5,6)]
  have len: "length (tickets r) = length loose + length nested"
    using nth(1) es by simp
  have ids: "map t_id (tickets r) =
             map (\<lambda>i. randomUUID env (draws st1 + i)) [0..<length loose + length nested]"
  proof (rule nth_equalityI)
    show "length (map t_id (tickets r)) =
          length (map (\<lambda>i. randomUUID env (draws st1 + i)) [0..<length loose + length nested])"
      using len by simp
  next
    fix i assume "i < length (map t_id (tickets r))"
    then have i: "i < length es" using nth(1) by simp
    then show "map t_id (tickets r) ! i =
          map (\<lambda>i. randomUUID env (draws st1 + i)) [0..<length loose + length nested] ! i"
      using nth(1) nth(2) [OF i] es
      by (simp add: linkParent_fields t_id_newTicket del: upt_Suc)
  qed
  have titles: "map t_title (tickets r) =
             map (\<lambda>t. orElse (getProp t ''title'') (JStr ''Untitled Ticket''))
               (loose @ concat (map nested_tickets bs))"
  proof (rule nth_equalityI)
    show "length (map t_title (tickets r)) =
          length (map (\<lambda>t. orElse (getProp t ''title'') (JStr ''Untitled Ticket''))
               (loose @ concat (map nested_tickets bs)))"
      using len n(2) [symmetric] by simp
  next
    fix i assume "i < length (map t_title (tickets r))"
    then have i: "i < length es" using nth(1) by simp
    have title: "t_title (tickets r ! i) =
        orElse (getProp (snd (es ! i)) ''title'') (JStr ''Untitled Ticket'')"
      using nth(2) [OF i] by (simp add: linkParent_fields newTicket_def Let_def)
    have "snd (es ! i) = map snd es ! i" using i by simp
    also have "map snd es = loose @ concat (map nested_tickets bs)"
      using es n(2) by (simp add: o_def)
    finally have "snd (es ! i) = (loose @ concat (map nested_tickets bs)) ! i" .
    moreover have "i < length (loose @ concat (map nested_tickets bs))"
      using i es n(2) [symmetric] by simp
    ultimately show "map t_title (tickets r) ! i =
          map (\<lambda>t. orElse (getProp t ''title'') (JStr ''Untitled Ticket''))
               (loose @ concat (map nested_tickets bs)) ! i"
      using nth(1) i title by (simp del: map_append)
  qed
  show ?thesis
    using stage n ids titles by blast
qed

subsection \<open>Two calls on the same document\<close>

lemma forEach_rel:
  assumes "R st st'"
    and "\<And>s s' x. R s s' \<Longrightarrow> rel_sum (=) R (f s x) (g s' x)"
  shows "rel_sum (=) R (forEach f xs st) (forEach g xs st')"
  using assms(1)
proof (induction xs arbitrary: st st')
  case Nil
  then show ?case by simp
next
  case (Cons x xs)
  have step: "rel_sum (=) R (f st x) (g st' x)"
    by (rule assms(2) [OF Cons.prems])
  show ?case
  proof (cases "f st x")
    case (Inl e)
    then show ?thesis using step by (cases "g st' x") simp_all
  next
    case (Inr s)
    then obtain s' where "g st' x = Inr s'" and "R s s'"
      using step by (cases "g st' x") simp_all
    then show ?thesis using Inr Cons.IH [of s s'] by simp
  qed
qed

lemma forEach_array_rel:
  assumes "R st st'"
    and "\<And>s s' x. R s s' \<Longrightarrow> rel_sum (=) R (f s x) (g s' x)"
  shows "rel_sum (=) R (forEach_array f v st) (forEach_array g v st')"
  using forEach_rel [of R st st' f g] assms by (cases v) simp_all

lemma map_option_upd:
  "(\<lambda>k. map_option f (m k))(a \<mapsto> f v) = (\<lambda>k. map_option f ((m(a \<mapsto> v)) k))"
  by (rule ext) simp

lemma processSprint_rel:
  assumes "\<forall>n. randomUUID env' n = f (randomUUID env n)" and "renamed_state f st st'"
  shows "rel_sum (=) (renamed_state f)
           (processSprint env newId st s) (processSprint env' (f newId) st' s)"
  using assms
  by (simp add: processSprint_def Let_def renamed_state_def rename_sprint_def map_option_upd)

lemma tagTicket_rel:
  assumes "renamed_state f st st'"
  shows "rel_sum (=) (renamed_state f) (tagTicket k st t) (tagTicket k st' t)"
proof -
  have w: "data_tickets st' = data_tickets st" using assms by (simp add: renamed_state_def)
  show ?thesis
  proof (cases "push_ticket (data_tickets st) (Some k, t)")
    case (Inl e)
    then show ?thesis by (simp add: tagTicket_def w)
  next
    case (Inr w')
    then show ?thesis using assms by (simp add: tagTicket_def w renamed_state_def)
  qed
qed

lemma pushBoard_rel:
  assumes "\<forall>n. randomUUID env' n = f (randomUUID env n)" and "renamed_state f st st'"
  shows "renamed_state f (pushBoard env st b) (pushBoard env' st' b)"
  using assms
  by (simp add: pushBoard_def Let_def renamed_state_def rename_board_def map_option_upd)

lemma processBoard_rel:
  assumes rn: "\<forall>n. randomUUID env' n = f (randomUUID env n)" and R: "renamed_state f st st'"
  shows "rel_sum (=) (renamed_state f) (processBoard env st b) (processBoard env' st' b)"
proof (cases "nullish b")
  case True
  then show ?thesis by (simp add: processBoard_def)
next
  case False
  have d: "draws st' = draws st" using R by (simp add: renamed_state_def)
  let ?newId = "randomUUID env (draws st)"
  let ?k = "id_key (draws st) (getProp b ''id'')"
  let ?a = "forEach_array (processSprint env ?newId) (getProp b ''sprints'') (pushBoard env st b)"
  let ?a' = "forEach_array (processSprint env' (f ?newId)) (getProp b ''sprints'') (pushBoard env' st' b)"
  have step: "rel_sum (=) (renamed_state f) ?a ?a'"
    using pushBoard_rel [OF rn R] processSprint_rel [OF rn]
    by (rule forEach_array_rel)
  show ?thesis
  proof (cases ?a)
    case (Inl e)
    then have "?a' = Inl e" using step by (cases ?a') simp_all
    then show ?thesis using False rn d Inl by (simp add: processBoard_def)
  next
    case (Inr s)
    then obtain s' where s': "?a' = Inr s'" and Rs: "renamed_state f s s'"
      using step by (cases ?a') simp_all
    have "rel_sum (=) (renamed_state f)
            (forEach_array (tagTicket ?k) (getProp b ''tickets'') s)
            (forEach_array (tagTicket ?k) (getProp b ''tickets'') s')"
      using Rs tagTicket_rel by (rule forEach_array_rel)
    then show ?thesis using False rn d Inr s' by (simp add: processBoard_def)
  qed
qed

lemma boardStage_rel:
  assumes "\<forall>n. randomUUID env' n = f (randomUUID env n)"
  shows "rel_sum (=) (renamed_state f) (boardStage env data) (boardStage env' data)"
proof -
  have "renamed_state f (init_state data) (init_state data)"
    by (simp add: renamed_state_def init_state_def)
  then show ?thesis
    unfolding boardStage_def using processBoard_rel [OF assms]
    by (rule forEach_array_rel)
qed

lemma lookup_map_option:
  "lookup (\<lambda>k. map_option f (m k)) k = map_option f (lookup m k)"
  by (simp add: lookup_def)

lemma resolveBoard_rel:
  assumes "renamed_state f st st'" and "map_option f cb = cb"
  shows "resolveBoard cb st' e = map_option f (resolveBoard cb st e)"
proof -
  have bm: "boardMap st' = (\<lambda>k. map_option f (boardMap st k))"
    and bs: "boards st' = map (rename_board f) (boards st)"
    using assms(1) by (simp_all add: renamed_state_def)
  have hd: "boards st \<noteq> [] \<Longrightarrow> b_id (hd (boards st')) = f (b_id (hd (boards st)))"
    using bs by (simp add: hd_map rename_board_def)
  show ?thesis
    using assms(2) hd bs by (simp add: resolveBoard_def bm lookup_map_option)
qed

lemma newTicket_rel:
  assumes "\<forall>n. randomUUID env' n = f (randomUUID env n)"
    and "renamed_state f st st'" and "map_option f cb = cb"
  shows "(newTicket env' cb st' e)\<lparr>t_created_at := t_created_at (newTicket env cb st e)\<rparr>
           = rename_refs f (newTicket env cb st e)"
proof -
  have "sprintMap st' = (\<lambda>k. map_option f (sprintMap st k))" and "draws st' = draws st"
    using assms(2) by (simp_all add: renamed_state_def)
  then show ?thesis
    using assms(1) resolveBoard_rel [OF assms(2,3)]
    by (simp add: newTicket_def Let_def rename_refs_def lookup_map_option)
qed

lemma processTicket_rel:
  assumes "\<forall>n. randomUUID env' n = f (randomUUID env n)"
    and "map_option f cb = cb" and "renamed_state f st st'"
  shows "rel_sum (=) (renamed_state f) (processTicket env cb st e) (processTicket env' cb st' e)"
  using assms newTicket_rel [OF assms(1,3,2), of e]
  by (simp add: processTicket_def Let_def renamed_state_def map_option_upd list_all2_appendI)

lemma linkParent_rel:
  assumes "t'\<lparr>t_created_at := t_created_at t\<rparr> = rename_refs f t"
  shows "(linkParent (\<lambda>k. map_option f (tm k)) t')\<lparr>t_created_at := t_created_at (linkParent tm t)\<rparr>
           = rename_ticket f (linkParent tm t)"
  using assms
  by (cases t, cases t')
     (auto simp: linkParent_def lookup_map_option rename_ticket_def rename_refs_def
           split: option.splits)

lemma linked_rel:
  assumes "list_all2 (\<lambda>t t'. t'\<lparr>t_created_at := t_created_at t\<rparr> = rename_refs f t) ts ts'"
  shows "list_all2 (\<lambda>t t'. t'\<lparr>t_created_at := t_created_at t\<rparr> = rename_ticket f t)
           (map (linkParent tm) ts) (map (linkParent (\<lambda>k. map_option f (tm k))) ts')"
  using assms
  by (simp add: list_all2_map1 list_all2_map2 linkParent_rel list_all2_mono)

lemma finish_rel:
  assumes "boards st' = map (rename_board f) (boards st)"
    and "sprints st' = map (rename_sprint f) (sprints st)"
    and "list_all2 (\<lambda>t t'. t'\<lparr>t_created_at := t_created_at t\<rparr> = rename_ticket f t)
           (tickets st) (tickets st')"
  shows "equivalent f (finish st) (finish st')"
  using assms list_all2_lengthD [OF assms(3)] by (simp add: equivalent_def finish_def)

lemma ticketStage_rel:
  assumes rn: "\<forall>n. randomUUID env' n = f (randomUUID env n)"
    and cb: "map_option f cb = cb" and R: "renamed_state f st st'" and nt: "tickets st = []"
  shows "rel_sum (=) (\<lambda>s s'. equivalent f (finish s) (finish s'))
           (ticketStage env cb st) (ticketStage env' cb st')"
proof -
  have w: "data_tickets st' = data_tickets st" using R by (simp add: renamed_state_def)
  show ?thesis
  proof (cases "data_tickets st")
    case (NotArray v)
    have "list_all2 (\<lambda>t t'. t'\<lparr>t_created_at := t_created_at t\<rparr> = rename_ticket f t)
           (tickets st) (tickets st')"
      using R nt by (simp add: renamed_state_def)
    then show ?thesis
      using R w NotArray by (simp add: ticketStage_def finish_rel renamed_state_def)
  next
    case (Entries es)
    let ?a = "forEach (processTicket env cb) es st"
    let ?a' = "forEach (processTicket env' cb) es st'"
    have step: "rel_sum (=) (renamed_state f) ?a ?a'"
      using R processTicket_rel [OF rn cb] by (rule forEach_rel)
    show ?thesis
    proof (cases ?a)
      case (Inl e)
      then have "?a' = Inl e" using step by (cases ?a') simp_all
      then show ?thesis using Inl Entries w by (simp add: ticketStage_def)
    next
      case (Inr s)
      then obtain s' where s': "?a' = Inr s'" and Rs: "renamed_state f s s'"
        using step by (cases ?a') simp_all
      have "equivalent f (finish (s\<lparr>tickets := map (linkParent (ticketMap s)) (tickets s)\<rparr>))
              (finish (s'\<lparr>tickets := map (linkParent (ticketMap s')) (tickets s')\<rparr>))"
        using Rs by (intro finish_rel) (simp_all add: renamed_state_def linked_rel)
      then show ?thesis using Inr s' Entries w by (simp add: ticketStage_def)
    qed
  qed
qed

lemma importData_rel:
  assumes rn: "\<forall>n. randomUUID env' n = f (randomUUID env n)" and cb: "map_option f cb = cb"
  shows "rel_sum (=) (equivalent f) (importData env data cb) (importData env' data cb)"
proof (cases "nullish data")
  case True
  then show ?thesis by (simp add: importData_def)
next
  case False
  note step = boardStage_rel [OF rn, of data]
  show ?thesis
  proof (cases "boardStage env data")
    case (Inl e)
    then have "boardStage env' data = Inl e" using step by (cases "boardStage env' data") simp_all
    then show ?thesis using Inl False by (simp add: importData_def)
  next
    case (Inr s)
    then obtain s' where s': "boardStage env' data = Inr s'" and Rs: "renamed_state f s s'"
      using step by (cases "boardStage env' data") simp_all
    have nt: "tickets s = []" using boardStage_closed [OF Inr] by (simp add: no_tickets_def)
    note step2 = ticketStage_rel [OF rn cb Rs nt]
    show ?thesis
    proof (cases "ticketStage env cb s")
      case (Inl e)
      then have "ticketStage env' cb s' = Inl e"
        using step2 by (cases "ticketStage env' cb s'") simp_all
      then show ?thesis using Inl Inr s' False by (simp add: importData_def)
    next
      case (Inr s2)
      then obtain s2' where "ticketStage env' cb s' = Inr s2'"
        and "equivalent f (finish s2) (finish s2')"
        using step2 by (cases "ticketStage env' cb s'") simp_all
      then show ?thesis using Inr \<open>boardStage env data = Inr s\<close> s' False
        by (simp add: importData_def)
    qed
  qed
qed

lemma distinct_result_ids:
  assumes "parseJsonImport env jsonString cb = Inr r" and "inj (randomUUID env)"
  shows "distinct (result_ids r)"
proof -
  have "card (set (result_ids r)) = card (randomUUID env ` {..<length (result_ids r)})"
    using result_ids_drawn [OF assms(1)] by simp
  also have "\<dots> = length (result_ids r)"
    using assms(2) by (simp add: card_image inj_on_subset [OF assms(2)])
  finally show ?thesis by (rule card_distinct)
qed

lemma shift_lessThan: "(\<lambda>n. k + n) ` {..<m} = {k..<k + (m::nat)}"
proof
  show "(\<lambda>n. k + n) ` {..<m} \<subseteq> {k..<k + m}" by auto
  show "{k..<k + m} \<subseteq> (\<lambda>n. k + n) ` {..<m}"
  proof
    fix x assume "x \<in> {k..<k + m}"
    then have "x = k + (x - k)" and "x - k \<in> {..<m}" by auto
    then show "x \<in> (\<lambda>n. k + n) ` {..<m}" by (rule image_eqI)
  qed
qed

text \<open>
  C6. The generator never repeats an identifier: its draws are pairwise distinct and none
  is the fallback, an identifier that existed before. A first call returns \<open>r\<close>; a second
  call on the same text finds the generator \<open>k\<close> draws later, past those of the first.
  Then the second call returns too, its result is the first one up to an injective
  renaming of the identifiers, the two results share no identifier, and inside each
  result the identifiers are pairwise distinct draws of the generator.
\<close>

theorem rerun_equivalent_disjoint:
  assumes gen: "inj (randomUUID env)"
    and fallback: "\<forall>c. currentBoardId = Some c \<longrightarrow> c \<notin> range (randomUUID env)"
    and run: "parseJsonImport env jsonString currentBoardId = Inr r"
    and later: "length (result_ids r) \<le> k"
    and same_parse: "JSON_parse env' = JSON_parse env"
    and next_draws: "randomUUID env' = (\<lambda>n. randomUUID env (k + n))"
  shows "\<exists>r' f. parseJsonImport env' jsonString currentBoardId = Inr r' \<and>
           inj f \<and> equivalent f r r' \<and>
           set (result_ids r) \<inter> set (result_ids r') = {} \<and>
           distinct (result_ids r) \<and> distinct (result_ids r') \<and>
           set (result_ids r) = randomUUID env ` {..<length (result_ids r)} \<and>
           set (result_ids r') = randomUUID env ` {k..<k + length (result_ids r')}"
proof -
  let ?g = "randomUUID env"
  define f where "f x = (if x \<in> range ?g then ?g (k + inv ?g x) else x)" for x
  have fg: "f (?g n) = ?g (k + n)" for n
    using gen by (simp add: f_def)
  have f_out: "x \<notin> range ?g \<Longrightarrow> f x = x" for x
    by (simp add: f_def)
  have "inj f"
  proof (rule injI)
    fix x y assume eq: "f x = f y"
    show "x = y"
    proof (cases "x \<in> range ?g"; cases "y \<in> range ?g")
      assume "x \<in> range ?g" "y \<in> range ?g"
      then obtain a b where "x = ?g a" "y = ?g b" by blast
      then show ?thesis using eq fg gen by (auto dest: injD)
    next
      assume x: "x \<in> range ?g" and y: "y \<notin> range ?g"
      then obtain a where "x = ?g a" by blast
      then have "f x \<in> range ?g" using fg by simp
      then show ?thesis using eq f_out [OF y] y by simp
    next
      assume x: "x \<notin> range ?g" and y: "y \<in> range ?g"
      then obtain b where "y = ?g b" by blast
      then have "f y \<in> range ?g" using fg by simp
      then show ?thesis using eq f_out [OF x] x by simp
    next
      assume "x \<notin> range ?g" "y \<notin> range ?g"
      then show ?thesis using eq f_out by simp
    qed
  qed
  have rn: "\<forall>n. randomUUID env' n = f (randomUUID env n)"
    using next_draws fg by simp
  have cb: "map_option f currentBoardId = currentBoardId"
    using fallback f_out by (cases currentBoardId) simp_all
  from run obtain data where data: "JSON_parse env jsonString = Some data"
    and r: "importData env data currentBoardId = Inr r"
    by (auto simp: parseJsonImport_def split: option.splits)
  from importData_rel [OF rn cb, of data] r obtain r' where
    r': "importData env' data currentBoardId = Inr r'" and eq: "equivalent f r r'"
    by (cases "importData env' data currentBoardId") simp_all
  have run': "parseJsonImport env' jsonString currentBoardId = Inr r'"
    using r' data same_parse by (simp add: parseJsonImport_def)
  have ids: "set (result_ids r) = ?g ` {..<length (result_ids r)}"
    by (rule result_ids_drawn [OF run])
  have "set (result_ids r') = randomUUID env' ` {..<length (result_ids r')}"
    by (rule result_ids_drawn [OF run'])
  also have "\<dots> = ?g ` ((\<lambda>n. k + n) ` {..<length (result_ids r')})"
    using next_draws by (simp add: image_image)
  also have "(\<lambda>n. k + n) ` {..<length (result_ids r')} = {k..<k + length (result_ids r')}"
    by (rule shift_lessThan)
  finally have ids': "set (result_ids r') = ?g ` {k..<k + length (result_ids r')}" .
  have "inj (randomUUID env')"
  proof (rule injI)
    fix a b assume "randomUUID env' a = randomUUID env' b"
    then have "k + a = k + b" using next_draws gen by (simp add: inj_eq)
    then show "a = b" by simp
  qed
  then have d': "distinct (result_ids r')"
    by (rule distinct_result_ids [OF run'])
  have disj: "set (result_ids r) \<inter> set (result_ids r') = {}"
  proof -
    have "{..<length (result_ids r)} \<inter> {k..<k + length (result_ids r')} = {}"
      using later by auto
    then show ?thesis
      unfolding ids ids' using gen by (metis image_Int image_empty)
  qed
  show ?thesis
    using run' \<open>inj f\<close> eq disj distinct_result_ids [OF run gen] d' ids ids' by blast
qed


subsection \<open>The sample documents\<close>

lemma sample_parse [simp]: "JSON_parse (sample_env text doc) text = Some doc"
  by (simp add: sample_env_def)

text \<open>
  C3 as stated fails at step (c): with the empty string as fallback, supplied by the
  caller when no board is active, the ticket of \<open>{"boards":[{}],"tickets":[{}]}\<close> gets the
  first board of the import, where the stated order gives the fallback.
\<close>

theorem board_priority_counterexample:
  "\<exists>r st1 es.
     parseJsonImport (sample_env flat_text flat_doc) flat_text (Some '''') = Inr r \<and>
     boardStage (sample_env flat_text flat_doc) flat_doc = Inr st1 \<and>
     data_tickets st1 = Entries es \<and> es = [(None, JObj [])] \<and>
     map b_id (boards r) = [''u''] \<and>
     t_board_id (tickets r ! 0) = Some ''u'' \<and>
     spec_board_priority (Some '''') (boardMap st1) (boards r) (es ! 0) = Some ''''"
  by (simp add: run_defs sample_defs flat_doc_def spec_board_priority_def)

text \<open>
  C5 as stated fails: with the fallback \<open>B1\<close>, the ticket of the document
  \<open>{"boards":[{}],"tickets":[{}]}\<close> gets the board \<open>B1\<close>, which is no board of the batch.
\<close>

theorem board_in_batch_counterexample:
  "\<exists>r. parseJsonImport (sample_env flat_text flat_doc) flat_text (Some ''B1'') = Inr r \<and>
        map b_id (boards r) = [''u''] \<and>
        map t_board_id (tickets r) = [Some ''B1''] \<and>
        \<not> (\<forall>t\<in>set (tickets r). \<exists>b\<in>set (boards r). t_board_id t = Some (b_id b))"
  by (simp add: run_defs sample_defs flat_doc_def)

text \<open>
  C8 as stated fails: the ticket \<open>T\<close> of the top-level list comes out before the ticket
  \<open>N\<close> nested under the board.
\<close>

theorem working_list_order_counterexample:
  "\<exists>r. parseJsonImport (sample_env order_text order_doc) order_text None = Inr r \<and>
        map t_title (tickets r) = [JStr ''T'', JStr ''N''] \<and>
        map t_title (tickets r) \<noteq>
          map (\<lambda>t. orElse (getProp t ''title'') (JStr ''Untitled Ticket''))
            ([JObj [(''title'', JStr ''N'')]] @ [JObj [(''title'', JStr ''T'')]])"
  by (simp add: run_defs sample_defs order_doc_def)


theorem referential_closure_witness:
  "\<exists>r. parseJsonImport (sample_env scenario_text scenario_doc) scenario_text None = Inr r \<and>
        map t_id (tickets r) = [''uuu'', ''uuuu''] \<and>
        map s_id (sprints r) = [''uu''] \<and>
        map t_parent_id (tickets r) = [JNull, JStr ''uuu''] \<and>
        map t_sprint_id (tickets r) = [None, Some ''uu''] \<and>
        (\<forall>t\<in>set (tickets r).
           (t_parent_id t = JNull \<or>
            (\<exists>p\<in>set (tickets r). t_parent_id t = JStr (t_id p) \<and>
               t_id p \<in> range (randomUUID (sample_env scenario_text scenario_doc)))) \<and>
           (t_sprint_id t = None \<or>
            (\<exists>sp\<in>set (sprints r). t_sprint_id t = Some (s_id sp) \<and>
               s_id sp \<in> range (randomUUID (sample_env scenario_text scenario_doc)))))"
proof -
  let ?E = "sample_env scenario_text scenario_doc"
  have "\<exists>r. parseJsonImport ?E scenario_text None = Inr r \<and>
        map t_id (tickets r) = [''uuu'', ''uuuu''] \<and>
        map s_id (sprints r) = [''uu''] \<and>
        map t_parent_id (tickets r) = [JNull, JStr ''uuu''] \<and>
        map t_sprint_id (tickets r) = [None, Some ''uu'']"
    by (simp add: run_defs sample_defs scenario_doc_def)
  then obtain r where r: "parseJsonImport ?E scenario_text None = Inr r"
    and v: "map t_id (tickets r) = [''uuu'', ''uuuu'']" "map s_id (sprints r) = [''uu'']"
      "map t_parent_id (tickets r) = [JNull, JStr ''uuu'']"
      "map t_sprint_id (tickets r) = [None, Some ''uu'']"
    by (elim exE conjE)
  show ?thesis
    by (intro exI [of _ r] conjI r v referential_closure [OF r])
qed

theorem parent_linking_witness:
  "\<exists>st1 es r.
     JSON_parse (sample_env forward_text forward_doc) forward_text = Some forward_doc \<and>
     boardStage (sample_env forward_text forward_doc) forward_doc = Inr st1 \<and>
     data_tickets st1 = Entries es \<and>
     parseJsonImport (sample_env forward_text forward_doc) forward_text None = Inr r \<and>
     length es = 3 \<and>
     carries_token (snd (es ! 1)) (getProp (snd (es ! 0)) ''parent_id'') \<and>
     map t_id (tickets r) = [''u'', ''uu'', ''uuu''] \<and>
     map t_parent_id (tickets r) = [JStr ''uu'', JNull, JNull] \<and>
     t_parent_id (tickets r ! 0) = JStr (t_id (tickets r ! 1)) \<and>
     t_parent_id (tickets r ! 2) = JNull"
proof -
  let ?E = "sample_env forward_text forward_doc"
  let ?es = "map (Pair None) [JObj [(''parent_id'', JStr ''e1'')],
       JObj [(''id'', JStr ''e1''), (''type'', JStr ''Epic'')],
       JObj [(''parent_id'', JStr ''gone'')]]"
  have p: "JSON_parse ?E forward_text = Some forward_doc" by simp
  have s: "boardStage ?E forward_doc = Inr (init_state forward_doc)"
    by (simp add: boardStage_def forward_doc_def)
  have w: "data_tickets (init_state forward_doc) = Entries ?es"
    by (simp add: init_state_def wrap_tickets_def forward_doc_def)
  have "\<exists>r. parseJsonImport ?E forward_text None = Inr r \<and>
        map t_id (tickets r) = [''u'', ''uu'', ''uuu''] \<and>
        map t_parent_id (tickets r) = [JStr ''uu'', JNull, JNull]"
    by (simp add: run_defs sample_defs forward_doc_def)
  then obtain r where r: "parseJsonImport ?E forward_text None = Inr r"
    and v: "map t_id (tickets r) = [''u'', ''uu'', ''uuu'']"
      "map t_parent_id (tickets r) = [JStr ''uu'', JNull, JNull]"
    by (elim exE conjE)
  note th = parent_linking [OF p s w r]
  have c: "carries_token (snd (?es ! 1)) (getProp (snd (?es ! 0)) ''parent_id'')"
    by (simp add: carries_token_def)
  have last: "\<forall>j'. 1 < j' \<and> j' < length ?es \<longrightarrow>
      \<not> carries_token (snd (?es ! j')) (getProp (snd (?es ! 0)) ''parent_id'')"
    by (simp add: carries_token_def less_Suc_eq nth_Cons')
  have none: "\<forall>j<length ?es.
      \<not> carries_token (snd (?es ! j)) (getProp (snd (?es ! 2)) ''parent_id'')"
    by (simp add: carries_token_def less_Suc_eq nth_Cons' eval_nat_numeral)
  have hit: "t_parent_id (tickets r ! 0) = JStr (t_id (tickets r ! 1))"
    using th [THEN conjunct2, THEN conjunct1, rule_format, of 0 1] c last by simp
  have miss: "t_parent_id (tickets r ! 2) = JNull"
    by (rule th [THEN conjunct2, THEN conjunct2, rule_format, of 2]) (use none in auto)
  have len: "length ?es = 3" by simp
  show ?thesis
    by (intro exI [of _ "init_state forward_doc"] exI [of _ ?es] exI [of _ r] conjI
          p s w r len c v hit miss)
qed

subsection \<open>Documents on which the function throws\<close>

text \<open>
  C1, where the code fails it. On a text that \<open>JSON.parse\<close> accepts and whose value is one
  of \<open>throwing_docs\<close>, the function throws a TypeError instead of returning a result.
\<close>

theorem malformed_entry_throws:
  assumes "JSON_parse env jsonString = Some data" and "data \<in> set throwing_docs"
  shows "parseJsonImport env jsonString currentBoardId = Inl TypeError"
  using assms by (auto simp: throwing_docs_def run_defs)

theorem malformed_entry_throws_witness:
  "JSON_parse (sample_env null_entry_text (JObj [(''tickets'', JArr [JNull])])) null_entry_text
     = Some (JObj [(''tickets'', JArr [JNull])]) \<and>
   JObj [(''tickets'', JArr [JNull])] \<in> set throwing_docs \<and>
   parseJsonImport (sample_env null_entry_text (JObj [(''tickets'', JArr [JNull])]))
     null_entry_text (Some ''B1'') = Inl TypeError"
proof -
  let ?d = "JObj [(''tickets'', JArr [JNull])]"
  have p: "JSON_parse (sample_env null_entry_text ?d) null_entry_text = Some ?d" by simp
  have m: "?d \<in> set throwing_docs" by (simp add: throwing_docs_def)
  show ?thesis
    by (intro conjI p m malformed_entry_throws [OF p m])
qed

subsection \<open>A sprint of another board\<close>

text \<open>
  C10. The sprint map is one for all boards. In the document with the boards \<open>b1\<close>
  (sprint \<open>s1\<close>) and \<open>b2\<close> (sprint \<open>s2\<close>), the ticket nested under \<open>b1\<close> with
  \<open>sprint_id\<close> \<open>s2\<close> comes out with the new identifier of the first board as \<open>board_id\<close>
  and the new identifier of the second board's sprint as \<open>sprint_id\<close>.
\<close>

theorem sprint_of_other_board:
  assumes "JSON_parse env jsonString = Some cross_doc"
  shows "\<exists>r b1 b2 sp1 sp2 t.
           parseJsonImport env jsonString currentBoardId = Inr r \<and>
           boards r = [b1, b2] \<and> sprints r = [sp1, sp2] \<and> tickets r = [t] \<and>
           b_id b1 = randomUUID env 0 \<and> s_id sp1 = randomUUID env 1 \<and>
           b_id b2 = randomUUID env 2 \<and> s_id sp2 = randomUUID env 3 \<and>
           s_board_id sp1 = b_id b1 \<and> s_board_id sp2 = b_id b2 \<and>
           t_board_id t = Some (b_id b1) \<and> t_sprint_id t = Some (s_id sp2) \<and>
           (randomUUID env 0 \<noteq> randomUUID env 2 \<longrightarrow> t_board_id t \<noteq> Some (s_board_id sp2))"
  using assms by (simp add: run_defs cross_doc_def eval_nat_numeral)

theorem sprint_of_other_board_witness:
  "\<exists>r. parseJsonImport (sample_env cross_text cross_doc) cross_text None = Inr r \<and>
        map b_id (boards r) = [''u'', ''uuu''] \<and>
        map s_id (sprints r) = [''uu'', ''uuuu''] \<and>
        map s_board_id (sprints r) = [''u'', ''uuu''] \<and>
        map t_board_id (tickets r) = [Some ''u''] \<and>
        map t_sprint_id (tickets r) = [Some ''uuuu'']"
proof -
  let ?E = "sample_env cross_text cross_doc"
  have p: "JSON_parse ?E cross_text = Some cross_doc" by simp
  from sprint_of_other_board [OF p, of None] obtain r b1 b2 sp1 sp2 t where
    r: "parseJsonImport ?E cross_text None = Inr r"
    and v: "boards r = [b1, b2]" "sprints r = [sp1, sp2]" "tickets r = [t]"
      "b_id b1 = randomUUID ?E 0" "s_id sp1 = randomUUID ?E 1"
      "b_id b2 = randomUUID ?E 2" "s_id sp2 = randomUUID ?E 3"
      "s_board_id sp1 = b_id b1" "s_board_id sp2 = b_id b2"
      "t_board_id t = Some (b_id b1)" "t_sprint_id t = Some (s_id sp2)"
    by (elim exE conjE)
  show ?thesis
    using r v by (intro exI [of _ r]) (simp add: sample_defs eval_nat_numeral)
qed

subsection \<open>More runs on the sample documents\<close>

lemma inj_sample_uuid: "inj sample_uuid"
proof (rule injI)
  fix a b assume "sample_uuid a = sample_uuid b"
  then have "length (sample_uuid a) = length (sample_uuid b)" by simp
  then show "a = b" by (simp add: sample_uuid_def)
qed

theorem board_priority_witness:
  "\<exists>st1 es r.
     JSON_parse (sample_env priority_text priority_doc) priority_text = Some priority_doc \<and>
     boardStage (sample_env priority_text priority_doc) priority_doc = Inr st1 \<and>
     data_tickets st1 = Entries es \<and>
     parseJsonImport (sample_env priority_text priority_doc) priority_text (Some ''B9'') = Inr r \<and>
     es = [(None, JObj [(''board_id'', JStr ''b1'')]), (None, JObj []),
           (Some (KPrim (JStr ''b1'')), JObj [(''title'', JStr ''N'')])] \<and>
     map b_id (boards r) = [''u''] \<and>
     map t_board_id (tickets r) = [Some ''u'', Some ''B9'', Some ''u''] \<and>
     t_board_id (tickets r ! 0) =
       amended_board_priority (Some ''B9'') (boardMap st1) (boards r) (es ! 0) \<and>
     t_board_id (tickets r ! 1) =
       amended_board_priority (Some ''B9'') (boardMap st1) (boards r) (es ! 1) \<and>
     t_board_id (tickets r ! 2) =
       amended_board_priority (Some ''B9'') (boardMap st1) (boards r) (es ! 2)"
proof -
  let ?E = "sample_env priority_text priority_doc"
  let ?es = "[(None, JObj [(''board_id'', JStr ''b1'')]), (None, JObj []),
           (Some (KPrim (JStr ''b1'')), JObj [(''title'', JStr ''N'')])]"
  have p: "JSON_parse ?E priority_text = Some priority_doc" by simp
  have "\<exists>st1. boardStage ?E priority_doc = Inr st1 \<and> data_tickets st1 = Entries ?es"
    by (simp add: run_defs priority_doc_def)
  then obtain st1 where s: "boardStage ?E priority_doc = Inr st1"
    and w: "data_tickets st1 = Entries ?es"
    by (elim exE conjE)
  have "\<exists>r. parseJsonImport ?E priority_text (Some ''B9'') = Inr r \<and>
          map b_id (boards r) = [''u''] \<and>
          map t_board_id (tickets r) = [Some ''u'', Some ''B9'', Some ''u'']"
    by (simp add: run_defs sample_defs priority_doc_def)
  then obtain r where r: "parseJsonImport ?E priority_text (Some ''B9'') = Inr r"
    and v: "map b_id (boards r) = [''u'']"
      "map t_board_id (tickets r) = [Some ''u'', Some ''B9'', Some ''u'']"
    by (elim exE conjE)
  note th = board_priority [OF p s w r, rule_format]
  have t0: "t_board_id (tickets r ! 0) =
       amended_board_priority (Some ''B9'') (boardMap st1) (boards r) (?es ! 0)"
    by (rule th) simp_all
  have t1: "t_board_id (tickets r ! 1) =
       amended_board_priority (Some ''B9'') (boardMap st1) (boards r) (?es ! 1)"
    by (rule th) simp_all
  have t2: "t_board_id (tickets r ! 2) =
       amended_board_priority (Some ''B9'') (boardMap st1) (boards r) (?es ! 2)"
    by (rule th) simp_all
  show ?thesis
    by (intro exI [of _ st1] exI [of _ ?es] exI [of _ r] conjI p s w r refl v t0 t1 t2)
qed

theorem board_in_batch_or_fallback_witness:
  "\<exists>r. parseJsonImport (sample_env priority_text priority_doc) priority_text (Some ''B9'') = Inr r \<and>
        boards r \<noteq> [] \<and>
        map b_id (boards r) = [''u''] \<and>
        map t_board_id (tickets r) = [Some ''u'', Some ''B9'', Some ''u''] \<and>
        (\<forall>t\<in>set (tickets r).
           (\<exists>b\<in>set (boards r). t_board_id t = Some (b_id b)) \<or>
           (truthy_str (Some ''B9'') \<and> t_board_id t = Some ''B9''))"
proof -
  let ?E = "sample_env priority_text priority_doc"
  have "\<exists>r. parseJsonImport ?E priority_text (Some ''B9'') = Inr r \<and>
          boards r \<noteq> [] \<and>
          map b_id (boards r) = [''u''] \<and>
          map t_board_id (tickets r) = [Some ''u'', Some ''B9'', Some ''u'']"
    by (simp add: run_defs sample_defs priority_doc_def)
  then obtain r where r: "parseJsonImport ?E priority_text (Some ''B9'') = Inr r"
    and v: "boards r \<noteq> []" "map b_id (boards r) = [''u'']"
      "map t_board_id (tickets r) = [Some ''u'', Some ''B9'', Some ''u'']"
    by (elim exE conjE)
  show ?thesis
    by (intro exI [of _ r] conjI r v board_in_batch_or_fallback [OF r v(1)])
qed

theorem working_list_order_witness:
  "\<exists>r st1 nested.
     JSON_parse (sample_env order_text order_doc) order_text = Some order_doc \<and>
     getProp order_doc ''boards'' =
       JArr [JObj [(''id'', JStr ''b1''), (''tickets'', JArr [JObj [(''title'', JStr ''N'')]])]] \<and>
     getProp order_doc ''tickets'' = JArr [JObj [(''title'', JStr ''T'')]] \<and>
     parseJsonImport (sample_env order_text order_doc) order_text None = Inr r \<and>
     boardStage (sample_env order_text order_doc) order_doc = Inr st1 \<and>
     data_tickets st1 = Entries (map (Pair None) [JObj [(''title'', JStr ''T'')]] @ nested) \<and>
     map snd nested = [JObj [(''title'', JStr ''N'')]] \<and>
     map t_title (tickets r) = [JStr ''T'', JStr ''N'']"
proof -
  let ?E = "sample_env order_text order_doc"
  let ?bs = "[JObj [(''id'', JStr ''b1''), (''tickets'', JArr [JObj [(''title'', JStr ''N'')]])]]"
  let ?loose = "[JObj [(''title'', JStr ''T'')]]"
  have p: "JSON_parse ?E order_text = Some order_doc" by simp
  have b: "getProp order_doc ''boards'' = JArr ?bs" by (simp add: order_doc_def)
  have l: "getProp order_doc ''tickets'' = JArr ?loose" by (simp add: order_doc_def)
  have "\<exists>r. parseJsonImport ?E order_text None = Inr r"
    by (simp add: run_defs sample_defs order_doc_def)
  then obtain r where r: "parseJsonImport ?E order_text None = Inr r" by (elim exE)
  from working_list_order [OF p b l r] obtain st1 nested where
    s: "boardStage ?E order_doc = Inr st1"
    and w: "data_tickets st1 = Entries (map (Pair None) ?loose @ nested)"
    and n: "map snd nested = concat (map nested_tickets ?bs)"
    and t: "map t_title (tickets r) =
             map (\<lambda>t. orElse (getProp t ''title'') (JStr ''Untitled Ticket''))
               (?loose @ concat (map nested_tickets ?bs))"
    by (elim exE conjE)
  have n': "map snd nested = [JObj [(''title'', JStr ''N'')]]"
    using n by (simp add: nested_tickets_def)
  have t': "map t_title (tickets r) = [JStr ''T'', JStr ''N'']"
    using t by (simp add: nested_tickets_def orElse_def)
  show ?thesis
    by (intro exI [of _ r] exI [of _ st1] exI [of _ nested] conjI p b l r s w n' t')
qed



theorem rerun_equivalent_disjoint_witness:
  "\<exists>r r' f.
     inj (randomUUID (sample_env scenario_text scenario_doc)) \<and>
     parseJsonImport (sample_env scenario_text scenario_doc) scenario_text None = Inr r \<and>
     length (result_ids r) \<le> 4 \<and>
     parseJsonImport (later_env (sample_env scenario_text scenario_doc) 4) scenario_text None
       = Inr r' \<and>
     inj f \<and> equivalent f r r' \<and>
     result_ids r = [''u'', ''uu'', ''uuu'', ''uuuu''] \<and>
     set (result_ids r) \<inter> set (result_ids r') = {} \<and>
     distinct (result_ids r) \<and> distinct (result_ids r')"
proof -
  let ?E = "sample_env scenario_text scenario_doc"
  let ?E' = "later_env ?E 4"
  have g: "inj (randomUUID ?E)"
    using inj_sample_uuid by (simp add: sample_env_def)
  have fb: "\<forall>c. (None :: string option) = Some c \<longrightarrow> c \<notin> range (randomUUID ?E)"
    by simp
  have "\<exists>r. parseJsonImport ?E scenario_text None = Inr r \<and>
          result_ids r = [''u'', ''uu'', ''uuu'', ''uuuu'']"
    by (simp add: run_defs sample_defs scenario_doc_def result_ids_def)
  then obtain r where r: "parseJsonImport ?E scenario_text None = Inr r"
    and ids: "result_ids r = [''u'', ''uu'', ''uuu'', ''uuuu'']"
    by (elim exE conjE)
  have len: "length (result_ids r) \<le> 4" using ids by simp
  have sp: "JSON_parse ?E' = JSON_parse ?E" by (simp add: later_env_def)
  have nd: "randomUUID ?E' = (\<lambda>n. randomUUID ?E (4 + n))" by (simp add: later_env_def)
  from rerun_equivalent_disjoint [OF g fb r len sp nd] obtain r' f where
    r': "parseJsonImport ?E' scenario_text None = Inr r'"
    and f: "inj f" and e: "equivalent f r r'"
    and d: "set (result_ids r) \<inter> set (result_ids r') = {}"
      "distinct (result_ids r)" "distinct (result_ids r')"
    by (elim exE conjE)
  show ?thesis
    by (intro exI [of _ r] exI [of _ r'] exI [of _ f] conjI g r len r' f e ids d)
qed

subsection \<open>Every failure after \<open>JSON.parse\<close> is a TypeError\<close>

lemma forEach_error:
  assumes "forEach f xs st = Inl e" and "\<And>s x e. f s x = Inl e \<Longrightarrow> e = TypeError"
  shows "e = TypeError"
  using assms(1)
proof (induction xs arbitrary: st)
  case Nil
  then show ?case by simp
next
  case (Cons x xs)
  then show ?case using assms(2) [of st x] by (cases "f st x") auto
qed

lemma forEach_array_error:
  assumes "forEach_array f v st = Inl e" and "\<And>s x e. f s x = Inl e \<Longrightarrow> e = TypeError"
  shows "e = TypeError"
  using assms forEach_error [of f _ st e] by (cases v) auto

lemma processSprint_error: "processSprint env newId st s = Inl e \<Longrightarrow> e = TypeError"
  by (auto simp: processSprint_def Let_def split: if_splits)

lemma tagTicket_error: "tagTicket k st t = Inl e \<Longrightarrow> e = TypeError"
  by (auto simp: tagTicket_def push_ticket_def split: if_splits sum.splits worklist.splits)

lemma processBoard_error:
  assumes "processBoard env st b = Inl e"
  shows "e = TypeError"
proof (cases "nullish b")
  case True
  then show ?thesis using assms by (simp add: processBoard_def)
next
  case False
  show ?thesis
  proof (cases "forEach_array (processSprint env (randomUUID env (draws st)))
                  (getProp b ''sprints'') (pushBoard env st b)")
    case (Inl e')
    then have "e' = TypeError"
      by (rule forEach_array_error) (rule processSprint_error)
    then show ?thesis using assms False Inl by (simp add: processBoard_def)
  next
    case (Inr st2)
    then have "forEach_array (tagTicket (id_key (draws st) (getProp b ''id'')))
                 (getProp b ''tickets'') st2 = Inl e"
      using assms False by (simp add: processBoard_def)
    then show ?thesis
      by (rule forEach_array_error) (rule tagTicket_error)
  qed
qed

lemma processTicket_error: "processTicket env cb st x = Inl e \<Longrightarrow> e = TypeError"
  by (auto simp: processTicket_def Let_def split: if_splits)

lemma importData_error:
  assumes "importData env data cb = Inl e"
  shows "e = TypeError"
proof (cases "nullish data")
  case True
  then show ?thesis using assms by (simp add: importData_def)
next
  case False
  show ?thesis
  proof (cases "boardStage env data")
    case (Inl e')
    then have "e' = TypeError"
      unfolding boardStage_def by (rule forEach_array_error) (rule processBoard_error)
    then show ?thesis using assms False Inl by (simp add: importData_def)
  next
    case (Inr st1)
    show ?thesis
    proof (cases "data_tickets st1")
      case (NotArray v)
      then show ?thesis using assms False Inr by (simp add: importData_def ticketStage_def)
    next
      case (Entries es)
      show ?thesis
      proof (cases "forEach (processTicket env cb) es st1")
        case (Inl e')
        then have "e' = TypeError"
          by (rule forEach_error) (rule processTicket_error)
        then show ?thesis
          using assms False Inr Entries Inl by (simp add: importData_def ticketStage_def)
      next
        case (Inr st2)
        then show ?thesis
          using assms False \<open>boardStage env data = Inr st1\<close> Entries
          by (simp add: importData_def ticketStage_def)
      qed
    qed
  qed
qed

text \<open>The other half of C1 holds: the parse error is thrown exactly when \<open>JSON.parse\<close> throws.\<close>

lemma parse_error_iff:
  "parseJsonImport env jsonString cb = Inl ParseError \<longleftrightarrow> JSON_parse env jsonString = None"
proof (cases "JSON_parse env jsonString")
  case None
  then show ?thesis by (simp add: parseJsonImport_def)
next
  case (Some data)
  have "importData env data cb \<noteq> Inl ParseError"
    using importData_error [of env data cb ParseError] by auto
  then show ?thesis using Some by (simp add: parseJsonImport_def)
qed

end
